theory Spec2Isabelle
  imports Main
begin

section \<open>Python values used by ChessVar.py\<close>

text \<open>
  A call of the program either returns a value or raises. The three faults the engine's
  own expressions can raise are unpacking \<open>None\<close> (TypeError), indexing a list out of
  range (IndexError) and \<open>chr\<close> of a number that is no code point (ValueError).
  A result is \<open>Inl\<close> of the fault or \<open>Inr\<close> of the value. The only loop that is not
  bounded by its data is the \<open>while\<close> of \<open>_path_is_clear\<close>; functions that run it
  return an option on top, \<open>None\<close> standing for a loop that never ends.
\<close>

datatype error = TypeError | IndexError | ValueError

abbreviation Return :: "'a \<Rightarrow> (error + 'a) option" where
  "Return v \<equiv> Some (Inr v)"

abbreviation Raise :: "error \<Rightarrow> (error + 'a) option" where
  "Raise e \<equiv> Some (Inl e)"

text \<open>\<open>xs[i]\<close> and \<open>xs[i] = v\<close> on a Python list: an index below zero counts from the end.\<close>

definition py_index :: "'a list \<Rightarrow> int \<Rightarrow> nat option" where
  "py_index xs i =
     (if 0 \<le> i \<and> i < int (length xs) then Some (nat i)
      else if i < 0 \<and> - int (length xs) \<le> i then Some (nat (int (length xs) + i))
      else None)"

definition py_getitem :: "'a list \<Rightarrow> int \<Rightarrow> error + 'a" where
  "py_getitem xs i = (case py_index xs i of None \<Rightarrow> Inl IndexError | Some k \<Rightarrow> Inr (xs ! k))"

definition py_setitem :: "'a list \<Rightarrow> int \<Rightarrow> 'a \<Rightarrow> error + 'a list" where
  "py_setitem xs i v = (case py_index xs i of None \<Rightarrow> Inl IndexError | Some k \<Rightarrow> Inr (xs[k := v]))"

text \<open>
  Characters. A \<open>char\<close> stands for one code point below 256; \<open>chr\<close> of a larger code
  point is represented by the character 255, which like every such code point is neither a
  file letter nor a rank digit nor a piece symbol.
\<close>

definition ord :: "char \<Rightarrow> int" where
  "ord c = of_char c"

definition chr :: "int \<Rightarrow> error + char" where
  "chr n =
     (if n < 0 \<or> 1114112 \<le> n then Inl ValueError
      else if n < 256 then Inr (char_of n)
      else Inr (char_of (255::int)))"

fun digits :: "nat \<Rightarrow> string" where
  "digits n =
     (if n < 10 then [char_of (48 + n)]
      else digits (n div 10) @ [char_of (48 + n mod 10)])"

declare digits.simps [simp del]

definition str :: "int \<Rightarrow> string" where
  "str i = (if i < 0 then CHR ''-'' # digits (nat (- i)) else digits (nat i))"

text \<open>\<open>int(row)\<close> for a one-character string holding a decimal digit.\<close>

definition int_of_digit :: "char \<Rightarrow> int" where
  "int_of_digit c = ord c - ord CHR ''0''"

text \<open>
  \<open>str.isupper\<close>, \<open>str.islower\<close> and \<open>str.lower\<close>, on the ASCII letters: a string
  is upper case when it has a cased character and none of them is lower case.
\<close>

definition upper_char :: "char \<Rightarrow> bool" where
  "upper_char c = (ord CHR ''A'' \<le> ord c \<and> ord c \<le> ord CHR ''Z'')"

definition lower_char :: "char \<Rightarrow> bool" where
  "lower_char c = (ord CHR ''a'' \<le> ord c \<and> ord c \<le> ord CHR ''z'')"

definition isupper :: "string \<Rightarrow> bool" where
  "isupper s = (list_ex upper_char s \<and> \<not> list_ex lower_char s)"

definition islower :: "string \<Rightarrow> bool" where
  "islower s = (list_ex lower_char s \<and> \<not> list_ex upper_char s)"

definition lower :: "string \<Rightarrow> string" where
  "lower s = map (\<lambda>c. if upper_char c then char_of (ord c + 32) else c) s"

section \<open>class Board\<close>

text \<open>
  The grid is a list of eight rows of eight one-character strings, row 0 being rank 8.
  The rows are eight separate lists, so a write to one cell changes no other.
\<close>

type_synonym board = "string list list"

definition Board_init :: board where
  "Board_init =
     [[''r'', ''n'', ''b'', ''q'', ''k'', ''b'', ''n'', ''r''],
      [''p'', ''p'', ''p'', ''p'', ''p'', ''p'', ''p'', ''p''],
      ['' '', '' '', '' '', '' '', '' '', '' '', '' '', '' ''],
      ['' '', '' '', '' '', '' '', '' '', '' '', '' '', '' ''],
      ['' '', '' '', '' '', '' '', '' '', '' '', '' '', '' ''],
      ['' '', '' '', '' '', '' '', '' '', '' '', '' '', '' ''],
      [''P'', ''P'', ''P'', ''P'', ''P'', ''P'', ''P'', ''P''],
      [''R'', ''N'', ''B'', ''Q'', ''K'', ''B'', ''N'', ''R'']]"

definition is_within_bounds :: "string \<Rightarrow> bool" where
  "is_within_bounds position =
     (length position = 2 \<and> position ! 0 \<in> set ''abcdefgh'' \<and> position ! 1 \<in> set ''12345678'')"

definition notation_to_index :: "string \<Rightarrow> (int \<times> int) option" where
  "notation_to_index notation =
     (if length notation \<noteq> 2 then None
      else let col = notation ! 0; row = notation ! 1
           in if col \<notin> set ''abcdefgh'' \<or> row \<notin> set ''12345678'' then None
              else Some (8 - int_of_digit row, ord col - ord CHR ''a''))"

text \<open>
  \<open>x, y = Board.notation_to_index(position)\<close> raises TypeError when the notation was
  rejected, since \<open>None\<close> cannot be unpacked.
\<close>

definition get_piece_at :: "board \<Rightarrow> string \<Rightarrow> error + string" where
  "get_piece_at board position =
     (case notation_to_index position of
        None \<Rightarrow> Inl TypeError
      | Some (x, y) \<Rightarrow>
          (case py_getitem board x of
             Inl e \<Rightarrow> Inl e
           | Inr row \<Rightarrow> py_getitem row y))"

text \<open>\<open>self._board[x][y] = v\<close>: the row is fetched, then written in place.\<close>

definition set_cell :: "board \<Rightarrow> int \<Rightarrow> int \<Rightarrow> string \<Rightarrow> error + board" where
  "set_cell board x y v =
     (case py_getitem board x of
        Inl e \<Rightarrow> Inl e
      | Inr row \<Rightarrow>
          (case py_setitem row y v of
             Inl e \<Rightarrow> Inl e
           | Inr row' \<Rightarrow> py_setitem board x row'))"

text \<open>\<open>self._board[x][y]\<close> read as a value.\<close>

definition get_cell :: "board \<Rightarrow> int \<Rightarrow> int \<Rightarrow> error + string" where
  "get_cell board x y =
     (case py_getitem board x of
        Inl e \<Rightarrow> Inl e
      | Inr row \<Rightarrow> py_getitem row y)"

text \<open>
  \<open>move_piece\<close> returns the board it has written. The test
  \<open>from_x is None or to_x is None\<close> comes after both unpackings and is never true.
\<close>

definition move_piece :: "board \<Rightarrow> string \<Rightarrow> string \<Rightarrow> error + board" where
  "move_piece board current_square next_square =
     (case notation_to_index current_square of
        None \<Rightarrow> Inl TypeError
      | Some (from_x, from_y) \<Rightarrow>
          (case notation_to_index next_square of
             None \<Rightarrow> Inl TypeError
           | Some (to_x, to_y) \<Rightarrow>
               (case get_cell board from_x from_y of
                  Inl e \<Rightarrow> Inl e
                | Inr v \<Rightarrow>
                    (case set_cell board to_x to_y v of
                       Inl e \<Rightarrow> Inl e
                     | Inr board' \<Rightarrow> set_cell board' from_x from_y '' ''))))"

datatype player = WHITE | BLACK

definition king_exists :: "board \<Rightarrow> player \<Rightarrow> bool" where
  "king_exists board color =
     (let king_symbol = (if color = WHITE then ''K'' else ''k'')
      in list_ex (\<lambda>row. king_symbol \<in> set row) board)"

section \<open>class Piece\<close>

record piece =
  piece_type :: string
  piece_lower :: string

definition Piece :: "string \<Rightarrow> piece" where
  "Piece t = \<lparr>piece_type = t, piece_lower = lower t\<rparr>"

text \<open>The \<open>while\<close> loop of \<open>_path_is_clear\<close>, from the square \<open>(x, y)\<close> on.\<close>

partial_function (option) path_loop ::
  "board \<Rightarrow> int \<Rightarrow> int \<Rightarrow> int \<Rightarrow> int \<Rightarrow> int \<Rightarrow> int \<Rightarrow> (error + bool) option" where
  [code]: "path_loop board step_x step_y to_x to_y x y =
     (if (x, y) = (to_x, to_y) then Return True
      else (case chr (y + ord CHR ''a'') of
              Inl e \<Rightarrow> Raise e
            | Inr c \<Rightarrow>
                (case get_piece_at board (c # str (8 - x)) of
                   Inl e \<Rightarrow> Raise e
                 | Inr p \<Rightarrow>
                     if p \<noteq> '' '' then Return False
                     else path_loop board step_x step_y to_x to_y (x + step_x) (y + step_y))))"

definition path_is_clear :: "int \<Rightarrow> int \<Rightarrow> int \<Rightarrow> int \<Rightarrow> board \<Rightarrow> (error + bool) option" where
  "path_is_clear from_x from_y to_x to_y board =
     (let distance_x = to_x - from_x;
          distance_y = to_y - from_y;
          step_x = (if distance_x = 0 then 0 else if distance_x > 0 then 1 else - 1);
          step_y = (if distance_y = 0 then 0 else if distance_y > 0 then 1 else - 1)
      in path_loop board step_x step_y to_x to_y (from_x + step_x) (from_y + step_y))"

text \<open>The pawn branch of \<open>is_valid_move\<close>.\<close>

definition pawn_rules ::
  "piece \<Rightarrow> string \<Rightarrow> board \<Rightarrow> int \<Rightarrow> int \<Rightarrow> int \<Rightarrow> int \<Rightarrow> string \<Rightarrow> error + bool" where
  "pawn_rules self next_square board from_x from_y distance_x distance_y piece_at_destination =
     (let direction = (if isupper (piece_type self) then - 1 else 1);
          start_row = (if isupper (piece_type self) then 6 else (1::int))
      in if distance_y = 0 \<and> distance_x = direction then
           (case get_piece_at board next_square of
              Inl e \<Rightarrow> Inl e
            | Inr d \<Rightarrow> Inr (d = '' ''))
         else if distance_y = 0 \<and> distance_x = 2 * direction \<and> from_x = start_row then
           (case chr (from_y + ord CHR ''a'') of
              Inl e \<Rightarrow> Inl e
            | Inr c \<Rightarrow>
                (case get_piece_at board (c # str (8 - (from_x + direction))) of
                   Inl e \<Rightarrow> Inl e
                 | Inr m \<Rightarrow>
                     if m = '' '' then
                       (case get_piece_at board next_square of
                          Inl e \<Rightarrow> Inl e
                        | Inr d \<Rightarrow> Inr (d = '' ''))
                     else Inr False))
         else if \<bar>distance_y\<bar> = 1 \<and> distance_x = direction then
           Inr (piece_at_destination \<noteq> '' ''
                \<and> isupper piece_at_destination \<noteq> isupper (piece_type self))
         else Inr False)"

definition is_valid_move :: "piece \<Rightarrow> string \<Rightarrow> string \<Rightarrow> board \<Rightarrow> (error + bool) option" where
  "is_valid_move self current_square next_square board =
     (case notation_to_index current_square of
        None \<Rightarrow> Raise TypeError
      | Some (from_x, from_y) \<Rightarrow>
     (case notation_to_index next_square of
        None \<Rightarrow> Raise TypeError
      | Some (to_x, to_y) \<Rightarrow>
     (let distance_x = to_x - from_x; distance_y = to_y - from_y in
     (case get_piece_at board next_square of
        Inl e \<Rightarrow> Raise e
      | Inr piece_at_destination \<Rightarrow>
          if piece_at_destination \<noteq> '' '' \<and>
             ((isupper (piece_type self) \<and> isupper piece_at_destination) \<or>
              (islower (piece_type self) \<and> islower piece_at_destination))
          then Return False
          else if piece_lower self = ''p'' then
            Some (pawn_rules self next_square board from_x from_y distance_x distance_y
                    piece_at_destination)
          else if piece_lower self = ''r'' then
            (if from_x = to_x \<or> from_y = to_y
             then path_is_clear from_x from_y to_x to_y board
             else Return False)
          else if piece_lower self = ''b'' then
            (if \<bar>distance_x\<bar> = \<bar>distance_y\<bar>
             then path_is_clear from_x from_y to_x to_y board
             else Return False)
          else if piece_lower self = ''n'' then
            (if (\<bar>distance_x\<bar>, \<bar>distance_y\<bar>) \<in> set [(2, 1), (1, 2)]
             then Return (piece_at_destination = '' ''
                          \<or> isupper piece_at_destination \<noteq> isupper (piece_type self))
             else Return False)
          else if piece_lower self = ''q'' then
            (if from_x = to_x \<or> from_y = to_y \<or> \<bar>distance_x\<bar> = \<bar>distance_y\<bar>
             then path_is_clear from_x from_y to_x to_y board
             else Return False)
          else if piece_lower self = ''k'' then
            (if max \<bar>distance_x\<bar> \<bar>distance_y\<bar> = 1
             then Return (piece_at_destination = '' ''
                          \<or> isupper piece_at_destination \<noteq> isupper (piece_type self))
             else Return False)
          else Return False))))"

section \<open>class ChessVar\<close>

datatype game_state = UNFINISHED | WHITE_WON | BLACK_WON

record chessvar =
  s_board :: board
  s_game_state :: game_state
  s_turn :: player

definition ChessVar_init :: chessvar where
  "ChessVar_init = \<lparr>s_board = Board_init, s_game_state = UNFINISHED, s_turn = WHITE\<rparr>"

definition get_game_state :: "chessvar \<Rightarrow> game_state" where
  "get_game_state s = s_game_state s"

definition get_board :: "chessvar \<Rightarrow> board" where
  "get_board s = s_board s"

definition get_turn :: "chessvar \<Rightarrow> player" where
  "get_turn s = s_turn s"

definition ChessVar_get_piece_at :: "chessvar \<Rightarrow> string \<Rightarrow> error + string" where
  "ChessVar_get_piece_at s position = get_piece_at (s_board s) position"

text \<open>
  \<open>make_move\<close> returns the answer together with the state it leaves. \<open>not piece\<close> is
  true of the empty string only.
\<close>

definition make_move :: "chessvar \<Rightarrow> string \<Rightarrow> string \<Rightarrow> (error + bool \<times> chessvar) option" where
  "make_move s current_square next_square =
     (if s_game_state s \<noteq> UNFINISHED then Return (False, s)
      else if \<not> is_within_bounds current_square \<or> \<not> is_within_bounds next_square
      then Return (False, s)
      else
        (case get_piece_at (s_board s) current_square of
           Inl e \<Rightarrow> Raise e
         | Inr piece \<Rightarrow>
             if piece = [] then Return (False, s)
             else if (s_turn s = WHITE \<and> islower piece) \<or> (s_turn s = BLACK \<and> isupper piece)
             then Return (False, s)
             else
               (case is_valid_move (Piece piece) current_square next_square (s_board s) of
                  None \<Rightarrow> None
                | Some (Inl e) \<Rightarrow> Raise e
                | Some (Inr ok) \<Rightarrow>
                    if \<not> ok then Return (False, s)
                    else
                      (case move_piece (s_board s) current_square next_square of
                         Inl e \<Rightarrow> Raise e
                       | Inr board' \<Rightarrow>
                           let s1 = s\<lparr>s_board := board'\<rparr>
                           in if piece = ''k'' \<and> next_square \<in> set [''d4'', ''e4'', ''d5'', ''e5'']
                              then Return (True, s1\<lparr>s_game_state := BLACK_WON\<rparr>)
                              else if piece = ''K'' \<and> next_square \<in> set [''d4'', ''e4'', ''d5'', ''e5'']
                              then Return (True, s1\<lparr>s_game_state := WHITE_WON\<rparr>)
                              else
                                let s2 = (if \<not> king_exists (s_board s1) WHITE
                                          then s1\<lparr>s_game_state := BLACK_WON\<rparr>
                                          else if \<not> king_exists (s_board s1) BLACK
                                          then s1\<lparr>s_game_state := WHITE_WON\<rparr>
                                          else s1);
                                    s3 = (if s_game_state s2 = UNFINISHED
                                          then s2\<lparr>s_turn := (if s_turn s2 = WHITE then BLACK else WHITE)\<rparr>
                                          else s2)
                                in Return (True, s3)))))"

section \<open>Notions used to state the properties\<close>

text \<open>
  None of the following is in the source. A board is well sized when it is an 8 by 8
  grid, and valid when moreover every cell holds one of the thirteen symbols of
  \<open>Board.__init__\<close>; \<open>cell\<close> reads a grid by row and column.
\<close>

definition symbols :: "string list" where
  "symbols = ['' '', ''p'', ''r'', ''n'', ''b'', ''q'', ''k'', ''P'', ''R'', ''N'', ''B'', ''Q'', ''K'']"

definition well_sized :: "board \<Rightarrow> bool" where
  "well_sized board = (length board = 8 \<and> list_all (\<lambda>row. length row = 8) board)"

definition valid_board :: "board \<Rightarrow> bool" where
  "valid_board board =
     (well_sized board \<and> list_all (\<lambda>row. list_all (\<lambda>c. c \<in> set symbols) row) board)"

definition cell :: "board \<Rightarrow> int \<times> int \<Rightarrow> string" where
  "cell board sq = board ! nat (fst sq) ! nat (snd sq)"

text \<open>
  The shared precheck of \<open>is_valid_move\<close>: the destination holds a piece of the mover's
  own colour.
\<close>

definition self_capture :: "string \<Rightarrow> string \<Rightarrow> bool" where
  "self_capture t d = (d \<noteq> '' '' \<and> ((isupper t \<and> isupper d) \<or> (islower t \<and> islower d)))"

text \<open>A grid with one cell rewritten, and the grid after a piece went from \<open>a\<close> to \<open>b\<close>.\<close>

definition put_cell :: "board \<Rightarrow> int \<times> int \<Rightarrow> string \<Rightarrow> board" where
  "put_cell board sq v = board[nat (fst sq) := (board ! nat (fst sq))[nat (snd sq) := v]]"

definition moved :: "board \<Rightarrow> int \<times> int \<Rightarrow> int \<times> int \<Rightarrow> board" where
  "moved board a b = put_cell (put_cell board b (cell board a)) a '' ''"

definition on_board :: "int \<times> int \<Rightarrow> bool" where
  "on_board sq = (0 \<le> fst sq \<and> fst sq < 8 \<and> 0 \<le> snd sq \<and> snd sq < 8)"

text \<open>How many cells of the board hold the symbol \<open>p\<close>.\<close>

definition count_piece :: "board \<Rightarrow> string \<Rightarrow> nat" where
  "count_piece board p = sum_list (map (\<lambda>row. count_list row p) board)"

text \<open>
  No side ever has two kings, and while the game is unfinished each side has its king.
\<close>

definition kings_inv :: "chessvar \<Rightarrow> bool" where
  "kings_inv s =
     (count_piece (s_board s) ''K'' \<le> 1 \<and> count_piece (s_board s) ''k'' \<le> 1 \<and>
      (s_game_state s = UNFINISHED \<longrightarrow>
         count_piece (s_board s) ''K'' = 1 \<and> count_piece (s_board s) ''k'' = 1))"

text \<open>
  The squares strictly between two squares of a common rank, file or diagonal, in the
  order in which a piece sliding from the first to the second crosses them.
\<close>

definition between_squares :: "int \<times> int \<Rightarrow> int \<times> int \<Rightarrow> (int \<times> int) list" where
  "between_squares a b =
     map (\<lambda>j. (fst a + j * sgn (fst b - fst a), snd a + j * sgn (snd b - snd a)))
       [1 .. max \<bar>fst b - fst a\<bar> \<bar>snd b - snd a\<bar> - 1]"

text \<open>The geometric pattern of the three sliding pieces, by lower-case piece letter.\<close>

definition line_pattern :: "string \<Rightarrow> int \<times> int \<Rightarrow> int \<times> int \<Rightarrow> bool" where
  "line_pattern t a b =
     ((t = ''r'' \<and> (fst a = fst b \<or> snd a = snd b)) \<or>
      (t = ''b'' \<and> \<bar>fst b - fst a\<bar> = \<bar>snd b - snd a\<bar>) \<or>
      (t = ''q'' \<and> (fst a = fst b \<or> snd a = snd b \<or> \<bar>fst b - fst a\<bar> = \<bar>snd b - snd a\<bar>)))"

text \<open>
  What \<open>make_move\<close> does to the state once the board has been written: the
  king-to-center check, the king-capture check and the change of turn. Lemma
  \<open>make_move_unfold\<close> relates it to \<open>make_move\<close>.
\<close>

definition win_checks :: "chessvar \<Rightarrow> string \<Rightarrow> string \<Rightarrow> chessvar" where
  "win_checks s1 piece next_square =
     (if piece = ''k'' \<and> next_square \<in> set [''d4'', ''e4'', ''d5'', ''e5'']
      then s1\<lparr>s_game_state := BLACK_WON\<rparr>
      else if piece = ''K'' \<and> next_square \<in> set [''d4'', ''e4'', ''d5'', ''e5'']
      then s1\<lparr>s_game_state := WHITE_WON\<rparr>
      else
        let s2 = (if \<not> king_exists (s_board s1) WHITE then s1\<lparr>s_game_state := BLACK_WON\<rparr>
                  else if \<not> king_exists (s_board s1) BLACK then s1\<lparr>s_game_state := WHITE_WON\<rparr>
                  else s1)
        in if s_game_state s2 = UNFINISHED
           then s2\<lparr>s_turn := (if s_turn s2 = WHITE then BLACK else WHITE)\<rparr>
           else s2)"

text \<open>The conditions under which \<open>make_move\<close> refuses a piece on an unfinished game.\<close>

definition refused :: "chessvar \<Rightarrow> string \<Rightarrow> string \<Rightarrow> string \<Rightarrow> bool" where
  "refused s piece current_square next_square =
     (piece = [] \<or> (s_turn s = WHITE \<and> islower piece) \<or> (s_turn s = BLACK \<and> isupper piece)
      \<or> is_valid_move (Piece piece) current_square next_square (s_board s) \<noteq> Return True)"

text \<open>
  A sequence of \<open>make_move\<close> calls on one game: the answers in order and the final
  state. A call that raises ends the sequence, as an uncaught exception would.
\<close>

fun play :: "chessvar \<Rightarrow> (string \<times> string) list \<Rightarrow> (error + bool list \<times> chessvar) option" where
  "play s [] = Return ([], s)"
| "play s (m # ms) =
     (case make_move s (fst m) (snd m) of
        None \<Rightarrow> None
      | Some (Inl e) \<Rightarrow> Raise e
      | Some (Inr (r, s')) \<Rightarrow>
          (case play s' ms of
             None \<Rightarrow> None
           | Some (Inl e) \<Rightarrow> Raise e
           | Some (Inr (rs, s'')) \<Rightarrow> Return (r # rs, s'')))"

section \<open>Sample positions\<close>

text \<open>
  Positions used to run the theorems on concrete input: the game after 1. e4; the game
  after 1. e4 f6 2. Qh5 a6, where the white queen attacks the black king, and after
  3. Qxe8; and a bare position with the white king on e3 below the black king on e4.
\<close>

definition after_e4 :: chessvar where
  "after_e4 =
     \<lparr>s_board =
       [[''r'', ''n'', ''b'', ''q'', ''k'', ''b'', ''n'', ''r''],
        [''p'', ''p'', ''p'', ''p'', ''p'', ''p'', ''p'', ''p''],
        ['' '', '' '', '' '', '' '', '' '', '' '', '' '', '' ''],
        ['' '', '' '', '' '', '' '', '' '', '' '', '' '', '' ''],
        ['' '', '' '', '' '', '' '', ''P'', '' '', '' '', '' ''],
        ['' '', '' '', '' '', '' '', '' '', '' '', '' '', '' ''],
        [''P'', ''P'', ''P'', ''P'', '' '', ''P'', ''P'', ''P''],
        [''R'', ''N'', ''B'', ''Q'', ''K'', ''B'', ''N'', ''R'']],
     s_game_state = UNFINISHED, s_turn = BLACK\<rparr>"

definition queen_raid :: "(string \<times> string) list" where
  "queen_raid = [(''e2'', ''e4''), (''f7'', ''f6''), (''d1'', ''h5''), (''a7'', ''a6'')]"

definition before_capture :: chessvar where
  "before_capture =
     \<lparr>s_board =
       [[''r'', ''n'', ''b'', ''q'', ''k'', ''b'', ''n'', ''r''],
        ['' '', ''p'', ''p'', ''p'', ''p'', '' '', ''p'', ''p''],
        [''p'', '' '', '' '', '' '', '' '', ''p'', '' '', '' ''],
        ['' '', '' '', '' '', '' '', '' '', '' '', '' '', ''Q''],
        ['' '', '' '', '' '', '' '', ''P'', '' '', '' '', '' ''],
        ['' '', '' '', '' '', '' '', '' '', '' '', '' '', '' ''],
        [''P'', ''P'', ''P'', ''P'', '' '', ''P'', ''P'', ''P''],
        [''R'', ''N'', ''B'', '' '', ''K'', ''B'', ''N'', ''R'']],
     s_game_state = UNFINISHED, s_turn = WHITE\<rparr>"

definition after_capture :: chessvar where
  "after_capture =
     \<lparr>s_board =
       [[''r'', ''n'', ''b'', ''q'', ''Q'', ''b'', ''n'', ''r''],
        ['' '', ''p'', ''p'', ''p'', ''p'', '' '', ''p'', ''p''],
        [''p'', '' '', '' '', '' '', '' '', ''p'', '' '', '' ''],
        ['' '', '' '', '' '', '' '', '' '', '' '', '' '', '' ''],
        ['' '', '' '', '' '', '' '', ''P'', '' '', '' '', '' ''],
        ['' '', '' '', '' '', '' '', '' '', '' '', '' '', '' ''],
        [''P'', ''P'', ''P'', ''P'', '' '', ''P'', ''P'', ''P''],
        [''R'', ''N'', ''B'', '' '', ''K'', ''B'', ''N'', ''R'']],
     s_game_state = WHITE_WON, s_turn = WHITE\<rparr>"

definition kings_face :: chessvar where
  "kings_face =
     \<lparr>s_board =
       [['' '', '' '', '' '', '' '', '' '', '' '', '' '', '' ''],
        ['' '', '' '', '' '', '' '', '' '', '' '', '' '', '' ''],
        ['' '', '' '', '' '', '' '', '' '', '' '', '' '', '' ''],
        ['' '', '' '', '' '', '' '', '' '', '' '', '' '', '' ''],
        ['' '', '' '', '' '', '' '', ''k'', '' '', '' '', '' ''],
        ['' '', '' '', '' '', '' '', ''K'', '' '', '' '', '' ''],
        ['' '', '' '', '' '', '' '', '' '', '' '', '' '', '' ''],
        ['' '', '' '', '' '', '' '', '' '', '' '', '' '', '' '']],
     s_game_state = UNFINISHED, s_turn = WHITE\<rparr>"

definition kings_face_won :: chessvar where
  "kings_face_won =
     \<lparr>s_board =
       [['' '', '' '', '' '', '' '', '' '', '' '', '' '', '' ''],
        ['' '', '' '', '' '', '' '', '' '', '' '', '' '', '' ''],
        ['' '', '' '', '' '', '' '', '' '', '' '', '' '', '' ''],
        ['' '', '' '', '' '', '' '', '' '', '' '', '' '', '' ''],
        ['' '', '' '', '' '', '' '', ''K'', '' '', '' '', '' ''],
        ['' '', '' '', '' '', '' '', '' '', '' '', '' '', '' ''],
        ['' '', '' '', '' '', '' '', '' '', '' '', '' '', '' ''],
        ['' '', '' '', '' '', '' '', '' '', '' '', '' '', '' '']],
     s_game_state = WHITE_WON, s_turn = WHITE\<rparr>"

section \<open>Square notation\<close>

lemma ord_char_of: "0 \<le> n \<Longrightarrow> n < 256 \<Longrightarrow> ord (char_of n) = n"
  by (simp add: ord_def)

lemma char_of_ord: "char_of (ord c) = c"
  by (simp add: ord_def)

lemma char_eq_ord: "(c = d) = (ord c = ord d)"
  by (simp add: ord_def)

lemma in_files: "c \<in> set ''abcdefgh'' \<longleftrightarrow> 97 \<le> ord c \<and> ord c \<le> 104"
proof -
  have "c \<in> set ''abcdefgh'' \<longleftrightarrow> ord c = 97 \<or> ord c = 98 \<or> ord c = 99 \<or> ord c = 100 \<or> ord c = 101
      \<or> ord c = 102 \<or> ord c = 103 \<or> ord c = 104"
    by (simp add: char_eq_ord [of c]) (simp add: ord_def)
  then show ?thesis by arith
qed

lemma in_ranks: "c \<in> set ''12345678'' \<longleftrightarrow> 49 \<le> ord c \<and> ord c \<le> 56"
proof -
  have "c \<in> set ''12345678'' \<longleftrightarrow> ord c = 49 \<or> ord c = 50 \<or> ord c = 51 \<or> ord c = 52 \<or> ord c = 53
      \<or> ord c = 54 \<or> ord c = 55 \<or> ord c = 56"
    by (simp add: char_eq_ord [of c]) (simp add: ord_def)
  then show ?thesis by arith
qed

lemma ord_char_of_nat: "n < 256 \<Longrightarrow> ord (char_of (n::nat)) = int n"
proof -
  assume "n < 256"
  have "(of_char (char_of n) :: int) = int (of_char (char_of n))"
    by (simp only: of_nat_of_char)
  also have "\<dots> = int (n mod 256)" by simp
  finally show ?thesis using \<open>n < 256\<close> by (simp add: ord_def)
qed

lemma length_two: "length p = 2 \<Longrightarrow> p = [p ! 0, p ! 1]"
  by (cases p; cases "tl p") auto

lemma notation_to_index_Some:
  assumes "notation_to_index p = Some (x, y)"
  shows "0 \<le> x \<and> x < 8 \<and> 0 \<le> y \<and> y < 8 \<and> p = [char_of (y + 97), char_of (56 - x)]"
proof -
  from assms have len: "length p = 2" and f: "p ! 0 \<in> set ''abcdefgh''" and r: "p ! 1 \<in> set ''12345678''"
    and x: "x = 8 - int_of_digit (p ! 1)" and y: "y = ord (p ! 0) - ord CHR ''a''"
    by (auto simp: notation_to_index_def Let_def split: if_splits)
  from f have fb: "97 \<le> ord (p ! 0) \<and> ord (p ! 0) \<le> 104" by (simp only: in_files)
  from r have rb: "49 \<le> ord (p ! 1) \<and> ord (p ! 1) \<le> 56" by (simp only: in_ranks)
  have a: "ord CHR ''a'' = 97" and z: "ord CHR ''0'' = 48" by (simp_all add: ord_def)
  have "y + 97 = ord (p ! 0)" using y a by simp
  then have c0: "char_of (y + 97) = p ! 0" by (simp only: char_of_ord)
  have "56 - x = ord (p ! 1)" using x z by (simp add: int_of_digit_def)
  then have c1: "char_of (56 - x) = p ! 1" by (simp only: char_of_ord)
  have "p = [p ! 0, p ! 1]" using len by (rule length_two)
  with c0 c1 have "p = [char_of (y + 97), char_of (56 - x)]" by simp
  moreover have "0 \<le> x \<and> x < 8 \<and> 0 \<le> y \<and> y < 8"
    using x y a z fb rb by (simp add: int_of_digit_def)
  ultimately show ?thesis by simp
qed

lemma within_bounds_index:
  "is_within_bounds p \<longleftrightarrow> (\<exists>x y. notation_to_index p = Some (x, y))"
  by (auto simp: is_within_bounds_def notation_to_index_def Let_def)

lemma square_name:
  assumes "0 \<le> x" "x < 8" "0 \<le> y" "y < 8"
  shows "\<exists>c. chr (y + ord CHR ''a'') = Inr c \<and> notation_to_index (c # str (8 - x)) = Some (x, y)"
proof -
  have a: "ord CHR ''a'' = 97" and z: "ord CHR ''0'' = 48" by (simp_all add: ord_def)
  have c: "chr (y + ord CHR ''a'') = Inr (char_of (y + 97))"
    using assms by (simp add: chr_def a)
  have "nat (8 - x) < 10" using assms by simp
  then have "digits (nat (8 - x)) = [char_of (48 + nat (8 - x))]"
    by (simp add: digits.simps)
  then have s: "str (8 - x) = [char_of (48 + nat (8 - x))]"
    using assms by (simp add: str_def)
  have oy: "ord (char_of (y + 97)) = y + 97" using assms by (simp add: ord_char_of)
  have ox: "ord (char_of (48 + nat (8 - x))) = 56 - x" using assms by (simp add: ord_char_of_nat)
  have "char_of (y + 97) \<in> set ''abcdefgh''" using assms oy by (simp only: in_files) simp
  moreover have "char_of (48 + nat (8 - x)) \<in> set ''12345678''" using assms ox by (simp only: in_ranks) simp
  ultimately have "notation_to_index [char_of (y + 97), char_of (48 + nat (8 - x))] = Some (x, y)"
    using oy ox a z by (simp add: notation_to_index_def int_of_digit_def del: set_simps)
  with c s show ?thesis by simp
qed

lemma notation_to_index_inj:
  "notation_to_index p = Some xy \<Longrightarrow> notation_to_index q = Some xy \<Longrightarrow> p = q"
  using notation_to_index_Some [of p "fst xy" "snd xy"] notation_to_index_Some [of q "fst xy" "snd xy"]
  by simp

section \<open>Reading the grid and walking a line\<close>

lemma well_sized_row:
  "well_sized board \<Longrightarrow> 0 \<le> x \<Longrightarrow> x < 8 \<Longrightarrow> length (board ! nat x) = 8"
  by (simp add: well_sized_def list_all_length)

lemma py_index_ok:
  "0 \<le> i \<Longrightarrow> i < int (length xs) \<Longrightarrow> py_index xs i = Some (nat i)"
  by (simp add: py_index_def)

lemma get_cell_ok:
  assumes "well_sized board" "0 \<le> x" "x < 8" "0 \<le> y" "y < 8"
  shows "get_cell board x y = Inr (cell board (x, y))"
proof -
  have "length board = 8" using assms(1) by (simp add: well_sized_def)
  moreover have "length (board ! nat x) = 8" using assms by (simp add: well_sized_row)
  ultimately show ?thesis
    using assms by (simp add: get_cell_def py_getitem_def py_index_ok cell_def)
qed

lemma set_cell_ok:
  assumes "well_sized board" "0 \<le> x" "x < 8" "0 \<le> y" "y < 8"
  shows "set_cell board x y v = Inr (board[nat x := (board ! nat x)[nat y := v]])"
proof -
  have "length board = 8" using assms(1) by (simp add: well_sized_def)
  moreover have "length (board ! nat x) = 8" using assms by (simp add: well_sized_row)
  ultimately show ?thesis
    using assms by (simp add: set_cell_def py_getitem_def py_setitem_def py_index_ok)
qed

lemma get_piece_at_ok:
  assumes "well_sized board" "notation_to_index p = Some (x, y)"
  shows "get_piece_at board p = Inr (cell board (x, y))"
proof -
  have b: "0 \<le> x \<and> x < 8 \<and> 0 \<le> y \<and> y < 8"
    using notation_to_index_Some [OF assms(2)] by simp
  then have "get_cell board x y = Inr (cell board (x, y))"
    using assms(1) by (simp add: get_cell_ok)
  then show ?thesis using assms(2) by (simp add: get_piece_at_def get_cell_def)
qed

lemma path_loop_done: "path_loop board sx sy tx ty tx ty = Return True"
  by (subst path_loop.simps) simp

lemma path_loop_step:
  assumes "(x, y) \<noteq> (tx, ty)" "chr (y + ord CHR ''a'') = Inr c"
    "get_piece_at board (c # str (8 - x)) = Inr p"
  shows "path_loop board sx sy tx ty x y
    = (if p \<noteq> '' '' then Return False else path_loop board sx sy tx ty (x + sx) (y + sy))"
  using assms by (subst path_loop.simps) auto

lemma path_loop_run:
  assumes ws: "well_sized board"
    and sx: "sx = - 1 \<or> sx = 0 \<or> sx = 1" and sy: "sy = - 1 \<or> sy = 0 \<or> sy = 1"
    and nz: "sx \<noteq> 0 \<or> sy \<noteq> 0"
    and inb: "\<forall>j. k \<le> j \<and> j < n \<longrightarrow>
        0 \<le> fx + int j * sx \<and> fx + int j * sx < 8 \<and> 0 \<le> fy + int j * sy \<and> fy + int j * sy < 8"
    and kn: "k \<le> n"
  shows "path_loop board sx sy (fx + int n * sx) (fy + int n * sy) (fx + int k * sx) (fy + int k * sy)
    = Return (\<forall>j. k \<le> j \<and> j < n \<longrightarrow> cell board (fx + int j * sx, fy + int j * sy) = '' '')"
  using inb kn
proof (induction "n - k" arbitrary: k)
  case 0
  then have "k = n" by simp
  then show ?case by (auto simp: path_loop_done)
next
  case (Suc d)
  then have lt: "k < n" by simp
  let ?x = "fx + int k * sx" and ?y = "fy + int k * sy"
  have ne: "(?x, ?y) \<noteq> (fx + int n * sx, fy + int n * sy)"
    using lt sx sy nz by auto
  have b: "0 \<le> ?x \<and> ?x < 8 \<and> 0 \<le> ?y \<and> ?y < 8" using Suc.prems(1) lt by simp
  then obtain c where c: "chr (?y + ord CHR ''a'') = Inr c"
    and idx: "notation_to_index (c # str (8 - ?x)) = Some (?x, ?y)"
    using square_name [of ?x ?y] by auto
  have g: "get_piece_at board (c # str (8 - ?x)) = Inr (cell board (?x, ?y))"
    using ws idx by (rule get_piece_at_ok)
  show ?case
  proof (cases "cell board (?x, ?y) = '' ''")
    case False
    then have "\<not> (\<forall>j. k \<le> j \<and> j < n \<longrightarrow> cell board (fx + int j * sx, fy + int j * sy) = '' '')"
      using lt by blast
    moreover have "path_loop board sx sy (fx + int n * sx) (fy + int n * sy) ?x ?y = Return False"
      using path_loop_step [OF ne c g] False by simp
    ultimately show ?thesis by simp
  next
    case True
    have step: "path_loop board sx sy (fx + int n * sx) (fy + int n * sy) ?x ?y
      = path_loop board sx sy (fx + int n * sx) (fy + int n * sy)
          (fx + int (Suc k) * sx) (fy + int (Suc k) * sy)"
    proof -
      have e: "?x + sx = fx + int (Suc k) * sx" "?y + sy = fy + int (Suc k) * sy"
        by (simp_all add: algebra_simps)
      have "path_loop board sx sy (fx + int n * sx) (fy + int n * sy) ?x ?y
        = path_loop board sx sy (fx + int n * sx) (fy + int n * sy) (?x + sx) (?y + sy)"
        using path_loop_step [OF ne c g, of sx sy] True by simp
      then show ?thesis by (simp only: e)
    qed
    have d: "d = n - Suc k" using Suc.hyps(2) by simp
    have inb': "\<forall>j. Suc k \<le> j \<and> j < n \<longrightarrow>
        0 \<le> fx + int j * sx \<and> fx + int j * sx < 8 \<and> 0 \<le> fy + int j * sy \<and> fy + int j * sy < 8"
      using Suc.prems(1) by simp
    have kn': "Suc k \<le> n" using lt by simp
    have ih: "path_loop board sx sy (fx + int n * sx) (fy + int n * sy)
          (fx + int (Suc k) * sx) (fy + int (Suc k) * sy)
      = Return (\<forall>j. Suc k \<le> j \<and> j < n \<longrightarrow> cell board (fx + int j * sx, fy + int j * sy) = '' '')"
      using Suc.hyps(1) [OF d inb' kn'] .
    have "(\<forall>j. k \<le> j \<and> j < n \<longrightarrow> cell board (fx + int j * sx, fy + int j * sy) = '' '')
      \<longleftrightarrow> (\<forall>j. Suc k \<le> j \<and> j < n \<longrightarrow> cell board (fx + int j * sx, fy + int j * sy) = '' '')"
      using True by (metis Suc_leI le_neq_implies_less Suc_leD)
    with step ih show ?thesis by simp
  qed
qed

lemma between_squares_all:
  "list_all P (between_squares (fx, fy) (tx, ty)) \<longleftrightarrow>
   (\<forall>j. 1 \<le> j \<and> j < nat (max \<bar>tx - fx\<bar> \<bar>ty - fy\<bar>) \<longrightarrow>
      P (fx + int j * sgn (tx - fx), fy + int j * sgn (ty - fy)))"
proof -
  let ?m = "max \<bar>tx - fx\<bar> \<bar>ty - fy\<bar>"
  let ?f = "\<lambda>j. (fx + j * sgn (tx - fx), fy + j * sgn (ty - fy))"
  have "list_all P (between_squares (fx, fy) (tx, ty)) \<longleftrightarrow> (\<forall>i\<in>{1 .. ?m - 1}. P (?f i))"
    by (simp add: between_squares_def list_all_iff)
  also have "\<dots> \<longleftrightarrow> (\<forall>j. 1 \<le> j \<and> j < nat ?m \<longrightarrow> P (?f (int j)))"
  proof
    assume a: "\<forall>i\<in>{1 .. ?m - 1}. P (?f i)"
    show "\<forall>j. 1 \<le> j \<and> j < nat ?m \<longrightarrow> P (?f (int j))"
    proof (intro allI impI)
      fix j :: nat assume "1 \<le> j \<and> j < nat ?m"
      then have "int j \<in> {1 .. ?m - 1}" by auto
      with a show "P (?f (int j))" by blast
    qed
  next
    assume a: "\<forall>j. 1 \<le> j \<and> j < nat ?m \<longrightarrow> P (?f (int j))"
    show "\<forall>i\<in>{1 .. ?m - 1}. P (?f i)"
    proof
      fix i assume i: "i \<in> {1 .. ?m - 1}"
      then have "1 \<le> nat i \<and> nat i < nat ?m" by auto
      with a have "P (?f (int (nat i)))" by blast
      moreover have "int (nat i) = i" using i by simp
      ultimately show "P (?f i)" by simp
    qed
  qed
  finally show ?thesis .
qed

lemma path_is_clear_ok:
  assumes ws: "well_sized board"
    and f: "0 \<le> fx" "fx < 8" "0 \<le> fy" "fy < 8"
    and t: "0 \<le> tx" "tx < 8" "0 \<le> ty" "ty < 8"
    and al: "fx = tx \<or> fy = ty \<or> \<bar>tx - fx\<bar> = \<bar>ty - fy\<bar>"
  shows "path_is_clear fx fy tx ty board
    = Return (list_all (\<lambda>sq. cell board sq = '' '') (between_squares (fx, fy) (tx, ty)))"
proof (cases "tx = fx \<and> ty = fy")
  case True
  then have "path_is_clear fx fy tx ty board = Return True"
    by (simp add: path_is_clear_def path_loop_done)
  moreover have "between_squares (fx, fy) (tx, ty) = []"
    using True by (simp add: between_squares_def)
  ultimately show ?thesis by simp
next
  case False
  define sx where "sx = sgn (tx - fx)"
  define sy where "sy = sgn (ty - fy)"
  define n where "n = nat (max \<bar>tx - fx\<bar> \<bar>ty - fy\<bar>)"
  have sx: "sx = - 1 \<or> sx = 0 \<or> sx = 1" and sy: "sy = - 1 \<or> sy = 0 \<or> sy = 1"
    by (auto simp: sx_def sy_def sgn_if)
  have nz: "sx \<noteq> 0 \<or> sy \<noteq> 0" using False by (auto simp: sx_def sy_def sgn_if)
  have n1: "1 \<le> n" using False by (auto simp: n_def)
  have tx: "tx = fx + int n * sx" and ty: "ty = fy + int n * sy"
    using al False by (auto simp: n_def sx_def sy_def sgn_if max_def split: if_splits)
  have inb: "\<forall>j. 1 \<le> j \<and> j < n \<longrightarrow>
        0 \<le> fx + int j * sx \<and> fx + int j * sx < 8 \<and> 0 \<le> fy + int j * sy \<and> fy + int j * sy < 8"
  proof (intro allI impI)
    fix j assume j: "1 \<le> j \<and> j < n"
    have "0 \<le> fx + int j * sx \<and> fx + int j * sx < 8"
      using sx j f t tx by (elim disjE) auto
    moreover have "0 \<le> fy + int j * sy \<and> fy + int j * sy < 8"
      using sy j f t ty by (elim disjE) auto
    ultimately show "0 \<le> fx + int j * sx \<and> fx + int j * sx < 8 \<and> 0 \<le> fy + int j * sy \<and> fy + int j * sy < 8"
      by simp
  qed
  have run: "path_loop board sx sy (fx + int n * sx) (fy + int n * sy) (fx + int 1 * sx) (fy + int 1 * sy)
    = Return (\<forall>j. 1 \<le> j \<and> j < n \<longrightarrow> cell board (fx + int j * sx, fy + int j * sy) = '' '')"
    using ws sx sy nz inb n1 by (rule path_loop_run)
  have steps: "(if tx - fx = 0 then 0 else if tx - fx > 0 then 1 else - 1) = sx"
    "(if ty - fy = 0 then 0 else if ty - fy > 0 then 1 else - 1) = sy"
    by (auto simp: sx_def sy_def sgn_if)
  have "path_is_clear fx fy tx ty board = path_loop board sx sy tx ty (fx + sx) (fy + sy)"
    unfolding path_is_clear_def Let_def steps ..
  also have "\<dots> = Return (\<forall>j. 1 \<le> j \<and> j < n \<longrightarrow> cell board (fx + int j * sx, fy + int j * sy) = '' '')"
    using run tx ty by simp
  finally show ?thesis
    by (simp add: between_squares_all n_def sx_def sy_def)
qed

section \<open>The branches of \<open>is_valid_move\<close>\<close>

lemma is_valid_move_unfold:
  assumes ws: "well_sized board"
    and c: "notation_to_index cur = Some (fx, fy)"
    and n: "notation_to_index nxt = Some (tx, ty)"
  shows "is_valid_move self cur nxt board =
    (let pad = cell board (tx, ty) in
      if self_capture (piece_type self) pad
          then Return False
          else if piece_lower self = ''p'' then
            Some (pawn_rules self nxt board fx fy (tx - fx) (ty - fy) pad)
          else if piece_lower self = ''r'' then
            (if fx = tx \<or> fy = ty
             then path_is_clear fx fy tx ty board
             else Return False)
          else if piece_lower self = ''b'' then
            (if \<bar>tx - fx\<bar> = \<bar>ty - fy\<bar>
             then path_is_clear fx fy tx ty board
             else Return False)
          else if piece_lower self = ''n'' then
            (if (\<bar>tx - fx\<bar>, \<bar>ty - fy\<bar>) \<in> set [(2, 1), (1, 2)]
             then Return (pad = '' '' \<or> isupper pad \<noteq> isupper (piece_type self))
             else Return False)
          else if piece_lower self = ''q'' then
            (if fx = tx \<or> fy = ty \<or> \<bar>tx - fx\<bar> = \<bar>ty - fy\<bar>
             then path_is_clear fx fy tx ty board
             else Return False)
          else if piece_lower self = ''k'' then
            (if max \<bar>tx - fx\<bar> \<bar>ty - fy\<bar> = 1
             then Return (pad = '' '' \<or> isupper pad \<noteq> isupper (piece_type self))
             else Return False)
          else Return False)"
  unfolding is_valid_move_def c n get_piece_at_ok [OF ws n] Let_def self_capture_def
  by (simp only: option.case prod.case sum.case)

lemma ivm_self_capture:
  assumes "well_sized board" "notation_to_index cur = Some (fx, fy)"
    "notation_to_index nxt = Some (tx, ty)"
    and "self_capture (piece_type self) (cell board (tx, ty))"
  shows "is_valid_move self cur nxt board = Return False"
  using assms(4) by (simp add: is_valid_move_unfold [OF assms(1-3)] Let_def)

lemma ivm_pawn:
  assumes "well_sized board" "notation_to_index cur = Some (fx, fy)"
    "notation_to_index nxt = Some (tx, ty)"
    and "\<not> self_capture (piece_type self) (cell board (tx, ty))"
    and "piece_lower self = ''p''"
  shows "is_valid_move self cur nxt board
    = Some (pawn_rules self nxt board fx fy (tx - fx) (ty - fy) (cell board (tx, ty)))"
  using assms(4,5) by (simp add: is_valid_move_unfold [OF assms(1-3)] Let_def)

lemma ivm_rook:
  assumes "well_sized board" "notation_to_index cur = Some (fx, fy)"
    "notation_to_index nxt = Some (tx, ty)"
    and "\<not> self_capture (piece_type self) (cell board (tx, ty))"
    and "piece_lower self = ''r''"
  shows "is_valid_move self cur nxt board
    = (if fx = tx \<or> fy = ty then path_is_clear fx fy tx ty board else Return False)"
  using assms(4,5) by (simp add: is_valid_move_unfold [OF assms(1-3)] Let_def)

lemma ivm_bishop:
  assumes "well_sized board" "notation_to_index cur = Some (fx, fy)"
    "notation_to_index nxt = Some (tx, ty)"
    and "\<not> self_capture (piece_type self) (cell board (tx, ty))"
    and "piece_lower self = ''b''"
  shows "is_valid_move self cur nxt board
    = (if \<bar>tx - fx\<bar> = \<bar>ty - fy\<bar> then path_is_clear fx fy tx ty board else Return False)"
  using assms(4,5) by (simp add: is_valid_move_unfold [OF assms(1-3)] Let_def)

lemma ivm_knight:
  assumes "well_sized board" "notation_to_index cur = Some (fx, fy)"
    "notation_to_index nxt = Some (tx, ty)"
    and "\<not> self_capture (piece_type self) (cell board (tx, ty))"
    and "piece_lower self = ''n''"
  shows "is_valid_move self cur nxt board
    = (if (\<bar>tx - fx\<bar>, \<bar>ty - fy\<bar>) \<in> set [(2, 1), (1, 2)]
       then Return (cell board (tx, ty) = '' ''
                    \<or> isupper (cell board (tx, ty)) \<noteq> isupper (piece_type self))
       else Return False)"
  using assms(4,5) by (simp add: is_valid_move_unfold [OF assms(1-3)] Let_def del: set_simps)

lemma ivm_queen:
  assumes "well_sized board" "notation_to_index cur = Some (fx, fy)"
    "notation_to_index nxt = Some (tx, ty)"
    and "\<not> self_capture (piece_type self) (cell board (tx, ty))"
    and "piece_lower self = ''q''"
  shows "is_valid_move self cur nxt board
    = (if fx = tx \<or> fy = ty \<or> \<bar>tx - fx\<bar> = \<bar>ty - fy\<bar>
       then path_is_clear fx fy tx ty board else Return False)"
  using assms(4,5) by (simp add: is_valid_move_unfold [OF assms(1-3)] Let_def)

lemma ivm_king:
  assumes "well_sized board" "notation_to_index cur = Some (fx, fy)"
    "notation_to_index nxt = Some (tx, ty)"
    and "\<not> self_capture (piece_type self) (cell board (tx, ty))"
    and "piece_lower self = ''k''"
  shows "is_valid_move self cur nxt board
    = (if max \<bar>tx - fx\<bar> \<bar>ty - fy\<bar> = 1
       then Return (cell board (tx, ty) = '' ''
                    \<or> isupper (cell board (tx, ty)) \<noteq> isupper (piece_type self))
       else Return False)"
  using assms(4,5) by (simp add: is_valid_move_unfold [OF assms(1-3)] Let_def)

lemma ivm_other:
  assumes "well_sized board" "notation_to_index cur = Some (fx, fy)"
    "notation_to_index nxt = Some (tx, ty)"
    and "piece_lower self \<notin> set [''p'', ''r'', ''b'', ''n'', ''q'', ''k'']"
  shows "is_valid_move self cur nxt board = Return False"
  using assms(4) by (simp add: is_valid_move_unfold [OF assms(1-3)] Let_def)

lemma pawn_rules_returns:
  assumes ws: "well_sized board"
    and n: "notation_to_index nxt = Some (tx, ty)"
    and f: "0 \<le> fx" "fx < 8" "0 \<le> fy" "fy < 8"
  shows "\<exists>b. pawn_rules self nxt board fx fy dx dy pad = Inr b"
proof -
  have g: "get_piece_at board nxt = Inr (cell board (tx, ty))"
    using ws n by (rule get_piece_at_ok)
  have mid: "\<exists>c v. chr (fy + ord CHR ''a'') = Inr c \<and> get_piece_at board (c # str (8 - m)) = Inr v"
    if m: "0 \<le> m" "m < 8" for m
  proof -
    obtain c where "chr (fy + ord CHR ''a'') = Inr c"
      and "notation_to_index (c # str (8 - m)) = Some (m, fy)"
      using square_name [of m fy] m f by auto
    then show ?thesis using get_piece_at_ok [OF ws] by blast
  qed
  show ?thesis
  proof (cases "isupper (piece_type self)")
    case True
    obtain c v where "chr (fy + ord CHR ''a'') = Inr c" "get_piece_at board (c # str (8 - 5)) = Inr v"
      using mid [of 5] by auto
    then show ?thesis using True g by (simp add: pawn_rules_def Let_def) blast?
  next
    case False
    obtain c v where "chr (fy + ord CHR ''a'') = Inr c" "get_piece_at board (c # str (8 - 2)) = Inr v"
      using mid [of 2] by auto
    then show ?thesis using False g by (simp add: pawn_rules_def Let_def) blast?
  qed
qed

lemma is_valid_move_returns:
  assumes ws: "well_sized board"
    and c: "is_within_bounds cur" and n: "is_within_bounds nxt"
  shows "is_valid_move self cur nxt board = Return True
       \<or> is_valid_move self cur nxt board = Return False"
proof -
  obtain fx fy where ci: "notation_to_index cur = Some (fx, fy)"
    using c by (auto simp: within_bounds_index)
  obtain tx ty where ni: "notation_to_index nxt = Some (tx, ty)"
    using n by (auto simp: within_bounds_index)
  have f: "0 \<le> fx" "fx < 8" "0 \<le> fy" "fy < 8"
    using notation_to_index_Some [OF ci] by simp_all
  have t: "0 \<le> tx" "tx < 8" "0 \<le> ty" "ty < 8"
    using notation_to_index_Some [OF ni] by simp_all
  have path: "path_is_clear fx fy tx ty board = Return True
      \<or> path_is_clear fx fy tx ty board = Return False"
    if "fx = tx \<or> fy = ty \<or> \<bar>tx - fx\<bar> = \<bar>ty - fy\<bar>"
    using path_is_clear_ok [OF ws f t that] by auto
  let ?sc = "self_capture (piece_type self) (cell board (tx, ty))"
  let ?t = "piece_lower self"
  have "?sc \<or> (\<not> ?sc \<and> ?t = ''p'') \<or> (\<not> ?sc \<and> ?t = ''r'') \<or> (\<not> ?sc \<and> ?t = ''b'')
      \<or> (\<not> ?sc \<and> ?t = ''n'') \<or> (\<not> ?sc \<and> ?t = ''q'') \<or> (\<not> ?sc \<and> ?t = ''k'')
      \<or> ?t \<notin> set [''p'', ''r'', ''b'', ''n'', ''q'', ''k'']"
    by (simp del: not_Cons_self2) blast
  then consider (sc) "?sc"
    | (p) "\<not> ?sc" "?t = ''p''"
    | (r) "\<not> ?sc" "?t = ''r''"
    | (b) "\<not> ?sc" "?t = ''b''"
    | (n) "\<not> ?sc" "?t = ''n''"
    | (q) "\<not> ?sc" "?t = ''q''"
    | (k) "\<not> ?sc" "?t = ''k''"
    | (o) "?t \<notin> set [''p'', ''r'', ''b'', ''n'', ''q'', ''k'']"
    by blast
  then show ?thesis
  proof cases
    case sc
    then show ?thesis by (simp add: ivm_self_capture [OF ws ci ni])
  next
    case p
    obtain pb where "pawn_rules self nxt board fx fy (tx - fx) (ty - fy) (cell board (tx, ty)) = Inr pb"
      using pawn_rules_returns [OF ws ni f] by blast
    with p show ?thesis by (cases pb) (simp_all add: ivm_pawn [OF ws ci ni])
  next
    case r
    show ?thesis
    proof (cases "fx = tx \<or> fy = ty")
      case True
      then show ?thesis using path by (auto simp: ivm_rook [OF ws ci ni r])
    next
      case False
      then show ?thesis by (simp add: ivm_rook [OF ws ci ni r])
    qed
  next
    case b
    show ?thesis
    proof (cases "\<bar>tx - fx\<bar> = \<bar>ty - fy\<bar>")
      case True
      then show ?thesis using path by (auto simp: ivm_bishop [OF ws ci ni b])
    next
      case False
      then show ?thesis by (simp add: ivm_bishop [OF ws ci ni b])
    qed
  next
    case n
    then show ?thesis by (simp add: ivm_knight [OF ws ci ni] del: set_simps) blast
  next
    case q
    show ?thesis
    proof (cases "fx = tx \<or> fy = ty \<or> \<bar>tx - fx\<bar> = \<bar>ty - fy\<bar>")
      case True
      then show ?thesis using path by (auto simp: ivm_queen [OF ws ci ni q])
    next
      case False
      then show ?thesis by (simp add: ivm_queen [OF ws ci ni q])
    qed
  next
    case k
    then show ?thesis by (simp add: ivm_king [OF ws ci ni]) blast
  next
    case o
    then have "is_valid_move self cur nxt board = Return False"
      by (rule ivm_other [OF ws ci ni])
    then show ?thesis by simp
  qed
qed

lemma sliding_move:
  assumes ws: "well_sized board"
    and ci: "notation_to_index cur = Some (fx, fy)"
    and ni: "notation_to_index nxt = Some (tx, ty)"
    and pat: "line_pattern (piece_lower self) (fx, fy) (tx, ty)"
  shows "is_valid_move self cur nxt board =
    Return (\<not> self_capture (piece_type self) (cell board (tx, ty))
            \<and> list_all (\<lambda>sq. cell board sq = '' '') (between_squares (fx, fy) (tx, ty)))"
proof -
  have f: "0 \<le> fx" "fx < 8" "0 \<le> fy" "fy < 8"
    using notation_to_index_Some [OF ci] by simp_all
  have t: "0 \<le> tx" "tx < 8" "0 \<le> ty" "ty < 8"
    using notation_to_index_Some [OF ni] by simp_all
  have al: "fx = tx \<or> fy = ty \<or> \<bar>tx - fx\<bar> = \<bar>ty - fy\<bar>"
    using pat by (auto simp: line_pattern_def)
  have path: "path_is_clear fx fy tx ty board
    = Return (list_all (\<lambda>sq. cell board sq = '' '') (between_squares (fx, fy) (tx, ty)))"
    using ws f t al by (rule path_is_clear_ok)
  show ?thesis
  proof (cases "self_capture (piece_type self) (cell board (tx, ty))")
    case True
    then show ?thesis by (simp add: ivm_self_capture [OF ws ci ni])
  next
    case False
    from pat consider (rook) "piece_lower self = ''r''" "fx = tx \<or> fy = ty"
      | (bishop) "piece_lower self = ''b''" "\<bar>tx - fx\<bar> = \<bar>ty - fy\<bar>"
      | (queen) "piece_lower self = ''q''" "fx = tx \<or> fy = ty \<or> \<bar>tx - fx\<bar> = \<bar>ty - fy\<bar>"
      unfolding line_pattern_def fst_conv snd_conv by blast
    then show ?thesis
    proof cases
      case rook
      then show ?thesis using False by (simp add: ivm_rook [OF ws ci ni False] path)
    next
      case bishop
      then show ?thesis using False by (simp add: ivm_bishop [OF ws ci ni False] path)
    next
      case queen
      then show ?thesis using False by (simp add: ivm_queen [OF ws ci ni False] path)
    qed
  qed
qed

lemma lower_letter_cased:
  assumes "lower p = [l]" "lower_char l"
  shows "isupper p \<or> islower p"
proof -
  from assms(1) obtain c where p: "p = [c]" by (auto simp: lower_def)
  show ?thesis
  proof (cases "upper_char c")
    case True
    then have "\<not> lower_char c" by (simp add: upper_char_def lower_char_def ord_def)
    with True show ?thesis by (simp add: p isupper_def)
  next
    case False
    with assms p have "lower_char c" by (simp add: lower_def)
    with False show ?thesis by (simp add: p islower_def)
  qed
qed

lemma piece_letters_lower:
  "lower_char CHR ''p''" "lower_char CHR ''r''" "lower_char CHR ''b''"
  "lower_char CHR ''n''" "lower_char CHR ''q''" "lower_char CHR ''k''"
  by (simp_all add: lower_char_def ord_def)

lemma space_not_cased: "\<not> isupper '' ''" "\<not> islower '' ''"
  by (simp_all add: isupper_def islower_def upper_char_def lower_char_def ord_def)

lemma mover_is_cased:
  assumes "piece_lower (Piece p) \<in> set [''p'', ''r'', ''b'', ''n'', ''q'', ''k'']"
  shows "isupper p \<or> islower p"
proof -
  from assms have "lower p = ''p'' \<or> lower p = ''r'' \<or> lower p = ''b'' \<or> lower p = ''n''
      \<or> lower p = ''q'' \<or> lower p = ''k''"
    by (simp add: Piece_def)
  then show ?thesis
    by (elim disjE) (erule lower_letter_cased, rule piece_letters_lower)+
qed

lemma no_null_move:
  assumes ws: "well_sized board" and ci: "notation_to_index cur = Some (x, y)"
  shows "is_valid_move (Piece (cell board (x, y))) cur cur board = Return False"
proof (cases "piece_lower (Piece (cell board (x, y))) \<in> set [''p'', ''r'', ''b'', ''n'', ''q'', ''k'']")
  case True
  have c: "isupper (cell board (x, y)) \<or> islower (cell board (x, y))"
    using True by (rule mover_is_cased)
  then have "cell board (x, y) \<noteq> '' ''" using space_not_cased by metis
  with c have "self_capture (piece_type (Piece (cell board (x, y)))) (cell board (x, y))"
    by (simp add: self_capture_def Piece_def)
  then show ?thesis by (rule ivm_self_capture [OF ws ci ci])
next
  case False
  then show ?thesis by (rule ivm_other [OF ws ci ci])
qed

section \<open>Writing the grid\<close>

lemma on_board_index: "notation_to_index p = Some sq \<Longrightarrow> on_board sq"
  using notation_to_index_Some [of p "fst sq" "snd sq"] by (simp add: on_board_def)

lemma on_board_nat: "on_board sq \<Longrightarrow> nat (fst sq) < 8 \<and> nat (snd sq) < 8"
  unfolding on_board_def by arith

lemma well_sized_lengths:
  "well_sized board \<Longrightarrow> length board = 8 \<and> (\<forall>i<8. length (board ! i) = 8)"
  by (simp add: well_sized_def list_all_length)

lemma put_cell_well_sized:
  assumes "well_sized board"
  shows "well_sized (put_cell board sq v)"
proof -
  have "length (put_cell board sq v ! i) = 8" if "i < 8" for i
  proof (cases "i = nat (fst sq)")
    case True
    then show ?thesis using assms that
      by (simp add: put_cell_def well_sized_def list_all_length)
  next
    case False
    then show ?thesis using assms that
      by (simp add: put_cell_def well_sized_def list_all_length)
  qed
  then show ?thesis using assms
    by (simp add: well_sized_def list_all_length put_cell_def)
qed

lemma cell_put_cell:
  assumes "well_sized board" "on_board sq" "on_board sq'"
  shows "cell (put_cell board sq v) sq' = (if sq' = sq then v else cell board sq')"
proof -
  have l: "length board = 8" "length (board ! nat (fst sq)) = 8"
    using well_sized_lengths [OF assms(1)] on_board_nat [OF assms(2)] by simp_all
  have n: "nat (fst sq) < 8" "nat (snd sq) < 8" "nat (fst sq') < 8" "nat (snd sq') < 8"
    using on_board_nat [OF assms(2)] on_board_nat [OF assms(3)] by simp_all
  have e: "sq' = sq \<longleftrightarrow> nat (fst sq') = nat (fst sq) \<and> nat (snd sq') = nat (snd sq)"
    using assms(2,3) by (auto simp: on_board_def prod_eq_iff)
  show ?thesis
  proof (cases "nat (fst sq') = nat (fst sq)")
    case True
    then show ?thesis using l e n
      by (simp add: cell_def put_cell_def nth_list_update)
  next
    case False
    then show ?thesis using l e n
      by (simp add: cell_def put_cell_def)
  qed
qed

lemma set_cell_put: 
  assumes "well_sized board" "on_board sq"
  shows "set_cell board (fst sq) (snd sq) v = Inr (put_cell board sq v)"
  using assms set_cell_ok [of board "fst sq" "snd sq" v]
  by (simp add: on_board_def put_cell_def)

lemma move_piece_ok:
  assumes ws: "well_sized board"
    and ci: "notation_to_index cur = Some a" and ni: "notation_to_index nxt = Some b"
  shows "move_piece board cur nxt = Inr (moved board a b)"
proof -
  have a: "on_board a" and b: "on_board b"
    using ci ni by (simp_all add: on_board_index)
  have g: "get_cell board (fst a) (snd a) = Inr (cell board a)"
    using get_cell_ok [of board "fst a" "snd a"] ws a by (simp add: on_board_def)
  have s1: "set_cell board (fst b) (snd b) (cell board a) = Inr (put_cell board b (cell board a))"
    using ws b by (rule set_cell_put)
  have s2: "set_cell (put_cell board b (cell board a)) (fst a) (snd a) '' ''
    = Inr (moved board a b)"
    unfolding moved_def using put_cell_well_sized [OF ws] a by (rule set_cell_put)
  show ?thesis
    using ci ni g s1 s2 by (cases a; cases b) (simp add: move_piece_def)
qed

lemma moved_well_sized: "well_sized board \<Longrightarrow> well_sized (moved board a b)"
  by (simp add: moved_def put_cell_well_sized)

lemma cell_moved:
  assumes "well_sized board" "on_board a" "on_board b" "on_board sq"
  shows "cell (moved board a b) sq
    = (if sq = a then '' '' else if sq = b then cell board a else cell board sq)"
  using assms by (simp add: moved_def cell_put_cell put_cell_well_sized)

lemma valid_board_iff:
  "valid_board board \<longleftrightarrow> well_sized board \<and> (\<forall>sq. on_board sq \<longrightarrow> cell board sq \<in> set symbols)"
proof (cases "well_sized board")
  case False
  then show ?thesis by (simp add: valid_board_def)
next
  case True
  then have l: "length board = 8" "\<And>i. i < 8 \<Longrightarrow> length (board ! i) = 8"
    by (simp_all add: well_sized_def list_all_length)
  have "list_all (\<lambda>row. list_all (\<lambda>c. c \<in> set symbols) row) board
    \<longleftrightarrow> (\<forall>i<8. \<forall>j<8. board ! i ! j \<in> set symbols)"
    using l by (simp add: list_all_length)
  also have "\<dots> \<longleftrightarrow> (\<forall>sq. on_board sq \<longrightarrow> cell board sq \<in> set symbols)"
  proof
    assume h: "\<forall>i<8. \<forall>j<8. board ! i ! j \<in> set symbols"
    show "\<forall>sq. on_board sq \<longrightarrow> cell board sq \<in> set symbols"
    proof (intro allI impI)
      fix sq assume "on_board sq"
      then have "nat (fst sq) < 8" "nat (snd sq) < 8" using on_board_nat by simp_all
      with h show "cell board sq \<in> set symbols" unfolding cell_def by blast
    qed
  next
    assume h: "\<forall>sq. on_board sq \<longrightarrow> cell board sq \<in> set symbols"
    show "\<forall>i<8. \<forall>j<8. board ! i ! j \<in> set symbols"
    proof (intro allI impI)
      fix i j :: nat assume "i < 8" "j < 8"
      then have "on_board (int i, int j)" by (simp add: on_board_def)
      with h have "cell board (int i, int j) \<in> set symbols" by blast
      then show "board ! i ! j \<in> set symbols" by (simp add: cell_def)
    qed
  qed
  finally show ?thesis using True by (simp add: valid_board_def)
qed

lemma valid_moved:
  assumes "valid_board board" "on_board a" "on_board b"
  shows "valid_board (moved board a b)"
proof -
  have ws: "well_sized board" and c: "\<And>sq. on_board sq \<Longrightarrow> cell board sq \<in> set symbols"
    using assms(1) unfolding valid_board_iff by blast+
  have "cell (moved board a b) sq \<in> set symbols" if "on_board sq" for sq
  proof -
    have "'' '' \<in> set symbols" by (simp add: symbols_def)
    then show ?thesis using c [OF that] c [OF assms(2)]
      by (simp add: cell_moved [OF ws assms(2,3) that])
  qed
  then show ?thesis using ws by (simp add: valid_board_iff moved_well_sized)
qed

section \<open>Counting kings\<close>

lemma count_list_update:
  "i < length xs \<Longrightarrow>
   count_list (xs[i := v]) p + (if xs ! i = p then 1 else 0)
   = count_list xs p + (if v = p then 1 else 0)"
proof (induction xs arbitrary: i)
  case Nil
  then show ?case by simp
next
  case (Cons x xs)
  show ?case
  proof (cases i)
    case 0
    then show ?thesis by simp
  next
    case (Suc n)
    then have "n < length xs" using Cons.prems by simp
    then have "count_list (xs[n := v]) p + (if xs ! n = p then 1 else 0)
      = count_list xs p + (if v = p then 1 else 0)"
      by (rule Cons.IH)
    then show ?thesis unfolding Suc by (simp split: if_splits)
  qed
qed

lemma count_list_pos: "0 < count_list xs x \<longleftrightarrow> x \<in> set xs"
  using count_list_0_iff [of xs x] by (cases "count_list xs x") auto

lemma count_rows_update:
  assumes "i < length board"
  shows "sum_list (map f (board[i := r])) + f (board ! i) = sum_list (map f board) + (f r :: nat)"
  using assms
proof (induction board arbitrary: i)
  case Nil
  then show ?case by simp
next
  case (Cons x xs)
  then show ?case by (cases i) auto
qed

lemma count_put_cell:
  assumes "well_sized board" "on_board sq"
  shows "count_piece (put_cell board sq v) p + (if cell board sq = p then 1 else 0)
    = count_piece board p + (if v = p then 1 else 0)"
proof -
  let ?i = "nat (fst sq)" and ?j = "nat (snd sq)"
  let ?f = "\<lambda>row. count_list row p"
  have i: "?i < length board" and j: "?j < length (board ! ?i)"
    using well_sized_lengths [OF assms(1)] on_board_nat [OF assms(2)] by simp_all
  have r: "?f ((board ! ?i)[?j := v]) + (if board ! ?i ! ?j = p then 1 else 0)
    = ?f (board ! ?i) + (if v = p then 1 else 0)"
    using j by (rule count_list_update)
  have b: "sum_list (map ?f (board[?i := (board ! ?i)[?j := v]])) + ?f (board ! ?i)
    = sum_list (map ?f board) + ?f ((board ! ?i)[?j := v])"
    using i by (rule count_rows_update)
  show ?thesis
    using r b unfolding count_piece_def put_cell_def cell_def by arith
qed

lemma count_moved:
  assumes ws: "well_sized board" and a: "on_board a" and b: "on_board b" and p: "p \<noteq> '' ''"
  shows "count_piece (moved board a b) p + (if cell board b = p then 1 else 0)
    = count_piece board p"
proof -
  let ?v = "cell board a"
  let ?b1 = "put_cell board b ?v"
  have ws1: "well_sized ?b1" using ws by (rule put_cell_well_sized)
  have c1: "count_piece ?b1 p + (if cell board b = p then 1 else 0)
    = count_piece board p + (if ?v = p then 1 else 0)"
    using ws b by (rule count_put_cell)
  have "cell ?b1 a = ?v" using ws b a by (simp add: cell_put_cell)
  moreover have "count_piece (put_cell ?b1 a '' '') p + (if cell ?b1 a = p then 1 else 0)
    = count_piece ?b1 p + (if '' '' = p then 1 else 0)"
    using ws1 a by (rule count_put_cell)
  ultimately have c2: "count_piece (moved board a b) p + (if ?v = p then 1 else 0)
    = count_piece ?b1 p"
    using p by (simp add: moved_def)
  from c1 c2 show ?thesis by (simp split: if_splits)
qed

lemma king_exists_count:
  "king_exists board color \<longleftrightarrow> 0 < count_piece board (if color = WHITE then ''K'' else ''k'')"
proof -
  have "list_ex (\<lambda>row. k \<in> set row) board \<longleftrightarrow> 0 < sum_list (map (\<lambda>row. count_list row k) board)"
    for k :: string
    by (induction board) (auto simp: count_list_pos)
  then show ?thesis by (simp add: king_exists_def count_piece_def Let_def)
qed

section \<open>The steps of \<open>make_move\<close>\<close>

lemma make_move_finished:
  "s_game_state s \<noteq> UNFINISHED \<Longrightarrow> make_move s cur nxt = Return (False, s)"
  by (simp add: make_move_def)

lemma make_move_out_of_bounds:
  "\<not> is_within_bounds cur \<or> \<not> is_within_bounds nxt \<Longrightarrow> make_move s cur nxt = Return (False, s)"
  by (simp add: make_move_def)

lemma make_move_unfold:
  assumes ws: "well_sized (s_board s)" and st: "s_game_state s = UNFINISHED"
    and ci: "notation_to_index cur = Some a" and ni: "notation_to_index nxt = Some b"
  shows "make_move s cur nxt =
    (if refused s (cell (s_board s) a) cur nxt then Return (False, s)
     else Return (True, win_checks (s\<lparr>s_board := moved (s_board s) a b\<rparr>) (cell (s_board s) a) nxt))"
proof -
  have wb: "is_within_bounds cur" "is_within_bounds nxt"
    using ci ni by (auto simp: within_bounds_index)
  have g: "get_piece_at (s_board s) cur = Inr (cell (s_board s) a)"
    using get_piece_at_ok [OF ws, of cur "fst a" "snd a"] ci by simp
  have m: "move_piece (s_board s) cur nxt = Inr (moved (s_board s) a b)"
    using ws ci ni by (rule move_piece_ok)
  let ?p = "cell (s_board s) a"
  from is_valid_move_returns [OF ws wb, of "Piece ?p"] show ?thesis
  proof
    assume v: "is_valid_move (Piece ?p) cur nxt (s_board s) = Return True"
    show ?thesis
      using st wb by (simp add: make_move_def refused_def win_checks_def Let_def g m v)
  next
    assume v: "is_valid_move (Piece ?p) cur nxt (s_board s) = Return False"
    show ?thesis
      using st wb by (simp add: make_move_def refused_def Let_def g v)
  qed
qed

lemma make_move_total:
  assumes ws: "well_sized (s_board s)"
  shows "make_move s cur nxt = Return (False, s)
    \<or> (\<exists>a b. notation_to_index cur = Some a \<and> notation_to_index nxt = Some b
          \<and> s_game_state s = UNFINISHED \<and> \<not> refused s (cell (s_board s) a) cur nxt
          \<and> make_move s cur nxt
            = Return (True, win_checks (s\<lparr>s_board := moved (s_board s) a b\<rparr>) (cell (s_board s) a) nxt))"
proof (cases "s_game_state s = UNFINISHED \<and> is_within_bounds cur \<and> is_within_bounds nxt")
  case False
  then show ?thesis using make_move_finished make_move_out_of_bounds by blast
next
  case True
  then obtain a b where ci: "notation_to_index cur = Some a" and ni: "notation_to_index nxt = Some b"
    by (auto simp: within_bounds_index)
  from True have st: "s_game_state s = UNFINISHED" by simp
  show ?thesis
    using make_move_unfold [OF ws st ci ni] ci ni st by (cases "refused s (cell (s_board s) a) cur nxt") auto
qed

section \<open>The sample positions, evaluated\<close>

lemma sample_e4: "make_move ChessVar_init ''e2'' ''e4'' = Return (True, after_e4)"
  by code_simp

lemma sample_raid: "play ChessVar_init queen_raid = Return ([True, True, True, True], before_capture)"
  by code_simp

lemma sample_capture: "make_move before_capture ''h5'' ''e8'' = Return (True, after_capture)"
  by code_simp

lemma sample_kings: "make_move kings_face ''e3'' ''e4'' = Return (True, kings_face_won)"
  by code_simp

lemma sample_valid:
  "valid_board (s_board ChessVar_init)" "valid_board (s_board before_capture)"
  "valid_board (s_board kings_face)" "valid_board Board_init"
  by code_simp+

lemma sample_kings_inv: "kings_inv before_capture" "kings_inv ChessVar_init"
  by code_simp+

section \<open>Win checks, invariants and whole games\<close>

lemma valid_well_sized: "valid_board board \<Longrightarrow> well_sized board"
  by (simp add: valid_board_def)

lemma make_move_returns:
  assumes "well_sized (s_board s)"
  shows "make_move s cur nxt = Return (False, s) \<or> (\<exists>s'. make_move s cur nxt = Return (True, s'))"
  using make_move_total [OF assms, of cur nxt] by blast

lemma win_checks_board: "s_board (win_checks s1 p n) = s_board s1"
  by (simp add: win_checks_def Let_def)

lemma win_checks_center:
  assumes "p = ''k'' \<or> p = ''K''" "n \<in> set [''d4'', ''e4'', ''d5'', ''e5'']"
  shows "win_checks s1 p n = s1\<lparr>s_game_state := (if p = ''K'' then WHITE_WON else BLACK_WON)\<rparr>"
  using assms by (auto simp: win_checks_def)


lemma win_checks_turn:
  assumes "s_game_state s1 = UNFINISHED"
  shows "s_turn (win_checks s1 p n)
    = (if s_game_state (win_checks s1 p n) = UNFINISHED
       then (if s_turn s1 = WHITE then BLACK else WHITE) else s_turn s1)"
  using assms by (simp add: win_checks_def Let_def)

lemma win_checks_unfinished:
  assumes "s_game_state (win_checks s1 p n) = UNFINISHED"
  shows "king_exists (s_board s1) WHITE \<and> king_exists (s_board s1) BLACK"
  using assms by (simp add: win_checks_def Let_def split: if_splits)

lemma play_finished:
  "s_game_state s \<noteq> UNFINISHED \<Longrightarrow> play s ms = Return (replicate (length ms) False, s)"
  by (induction ms) (simp_all add: make_move_finished)

lemma play_append:
  "play s ms = Return (rs, s') \<Longrightarrow>
   play s (ms @ ms') =
     (case play s' ms' of
        None \<Rightarrow> None
      | Some (Inl e) \<Rightarrow> Raise e
      | Some (Inr (rs', s'')) \<Rightarrow> Return (rs @ rs', s''))"
proof (induction ms arbitrary: s rs)
  case Nil
  then show ?case by (auto split: option.splits sum.splits)
next
  case (Cons m ms)
  from Cons.prems obtain r s1 rs1 where
    m: "make_move s (fst m) (snd m) = Return (r, s1)"
    and p: "play s1 ms = Return (rs1, s')" and rs: "rs = r # rs1"
    by (auto split: option.splits sum.splits)
  show ?case
    using Cons.IH [OF p] m rs by (auto split: option.splits sum.splits)
qed

lemma make_move_preserves:
  assumes v: "valid_board (s_board s)" and k: "kings_inv s"
    and m: "make_move s cur nxt = Return (r, s')"
  shows "valid_board (s_board s') \<and> kings_inv s'"
proof -
  have ws: "well_sized (s_board s)" using v by (rule valid_well_sized)
  from make_move_total [OF ws, of cur nxt] show ?thesis
  proof
    assume "make_move s cur nxt = Return (False, s)"
    with m v k show ?thesis by simp
  next
    assume "\<exists>a b. notation_to_index cur = Some a \<and> notation_to_index nxt = Some b
          \<and> s_game_state s = UNFINISHED \<and> \<not> refused s (cell (s_board s) a) cur nxt
          \<and> make_move s cur nxt
            = Return (True, win_checks (s\<lparr>s_board := moved (s_board s) a b\<rparr>) (cell (s_board s) a) nxt)"
    then obtain a b where ci: "notation_to_index cur = Some a" and ni: "notation_to_index nxt = Some b"
      and mm: "make_move s cur nxt
            = Return (True, win_checks (s\<lparr>s_board := moved (s_board s) a b\<rparr>) (cell (s_board s) a) nxt)"
      by blast
    let ?b = "moved (s_board s) a b"
    have a: "on_board a" and b: "on_board b" using ci ni by (simp_all add: on_board_index)
    have s': "s' = win_checks (s\<lparr>s_board := ?b\<rparr>) (cell (s_board s) a) nxt"
      using m mm by simp
    have bd: "s_board s' = ?b" unfolding s' by (simp add: win_checks_board)
    have vb: "valid_board ?b" using v a b by (rule valid_moved)
    have cK: "count_piece ?b ''K'' \<le> count_piece (s_board s) ''K''"
      using count_moved [OF ws a b, of "''K''"] by simp
    have ck: "count_piece ?b ''k'' \<le> count_piece (s_board s) ''k''"
      using count_moved [OF ws a b, of "''k''"] by simp
    have le: "count_piece ?b ''K'' \<le> 1" "count_piece ?b ''k'' \<le> 1"
      using cK ck k by (simp_all add: kings_inv_def)
    have "count_piece ?b ''K'' = 1 \<and> count_piece ?b ''k'' = 1" if "s_game_state s' = UNFINISHED"
    proof -
      have "king_exists ?b WHITE \<and> king_exists ?b BLACK"
        using win_checks_unfinished [OF that [unfolded s']] by simp
      then have "0 < count_piece ?b ''K'' \<and> 0 < count_piece ?b ''k''"
        by (simp add: king_exists_count)
      with le show ?thesis by simp
    qed
    with le vb bd show ?thesis by (simp add: kings_inv_def)
  qed
qed

lemma play_invariants:
  assumes "valid_board (s_board s)" "kings_inv s"
  shows "\<exists>rs s'. play s ms = Return (rs, s') \<and> length rs = length ms
    \<and> valid_board (s_board s') \<and> kings_inv s'"
  using assms
proof (induction ms arbitrary: s)
  case Nil
  then show ?case by simp
next
  case (Cons m ms)
  have ws: "well_sized (s_board s)" using Cons.prems(1) by (rule valid_well_sized)
  from make_move_returns [OF ws, of "fst m" "snd m"]
  obtain r s1 where mm: "make_move s (fst m) (snd m) = Return (r, s1)" by blast
  have "valid_board (s_board s1) \<and> kings_inv s1"
    using Cons.prems mm by (rule make_move_preserves)
  then obtain rs s' where "play s1 ms = Return (rs, s')" "length rs = length ms"
    "valid_board (s_board s')" "kings_inv s'"
    using Cons.IH by blast
  then show ?case using mm by simp
qed

lemma empty_not_moved:
  assumes ws: "well_sized board"
    and ci: "is_within_bounds cur" and ni: "is_within_bounds nxt"
  shows "is_valid_move (Piece '' '') cur nxt board = Return False"
proof -
  obtain fx fy where c: "notation_to_index cur = Some (fx, fy)"
    using ci by (auto simp: within_bounds_index)
  obtain tx ty where n: "notation_to_index nxt = Some (tx, ty)"
    using ni by (auto simp: within_bounds_index)
  have "piece_lower (Piece '' '') \<notin> set [''p'', ''r'', ''b'', ''n'', ''q'', ''k'']"
    by (simp add: Piece_def lower_def upper_char_def ord_def)
  then show ?thesis by (rule ivm_other [OF ws c n])
qed

lemma legal_move_details:
  assumes ws: "well_sized (s_board s)"
    and m: "make_move s cur nxt = Return (True, s')"
  obtains a b where "notation_to_index cur = Some a" "notation_to_index nxt = Some b"
    "s_game_state s = UNFINISHED" "\<not> refused s (cell (s_board s) a) cur nxt"
    "s' = win_checks (s\<lparr>s_board := moved (s_board s) a b\<rparr>) (cell (s_board s) a) nxt"
  using make_move_total [OF ws, of cur nxt] m by auto

lemma between_excludes_ends:
  "a \<notin> set (between_squares a b) \<and> b \<notin> set (between_squares a b)"
proof -
  obtain fx fy where a: "a = (fx, fy)" by (cases a)
  obtain tx ty where b: "b = (tx, ty)" by (cases b)
  let ?n = "max \<bar>tx - fx\<bar> \<bar>ty - fy\<bar>"
  have "(fx, fy) \<noteq> (fx + j * sgn (tx - fx), fy + j * sgn (ty - fy))"
    if "1 \<le> j" "j \<le> ?n - 1" for j
    using that by (auto simp: sgn_if split: if_splits)
  moreover have "(tx, ty) \<noteq> (fx + j * sgn (tx - fx), fy + j * sgn (ty - fy))"
    if "1 \<le> j" "j \<le> ?n - 1" for j
    using that by (auto simp: sgn_if split: if_splits)
  ultimately show ?thesis
    unfolding a b between_squares_def by (auto simp del: upto.simps)
qed

lemma play_from_init:
  "\<exists>rs s. play ChessVar_init ms = Return (rs, s) \<and> length rs = length ms
    \<and> valid_board (s_board s) \<and> kings_inv s"
  using sample_valid(1) sample_kings_inv(2) by (rule play_invariants)

section \<open>Properties of the engine\<close>

text \<open>
  C10. For an 8 by 8 board and two squares of the board on a common rank, file or
  diagonal, the loop of \<open>_path_is_clear\<close> ends and the call returns a boolean: it neither
  runs forever nor raises.
\<close>

theorem path_is_clear_terminates:
  assumes "well_sized board"
    and "0 \<le> from_x" "from_x < 8" "0 \<le> from_y" "from_y < 8"
    and "0 \<le> to_x" "to_x < 8" "0 \<le> to_y" "to_y < 8"
    and "from_x = to_x \<or> from_y = to_y \<or> \<bar>to_x - from_x\<bar> = \<bar>to_y - from_y\<bar>"
  shows "\<exists>b. path_is_clear from_x from_y to_x to_y board = Return b"
  using path_is_clear_ok [OF assms] by simp

theorem path_is_clear_terminates_witness:
  "\<exists>b. path_is_clear 7 0 0 0 Board_init = Return b"
  using path_is_clear_terminates [of Board_init 7 0 0 0]
  by (simp add: well_sized_def Board_init_def)

text \<open>
  C9. The occupant query does raise on malformed notation: \<open>notation_to_index\<close> answers
  \<open>None\<close> for \<open>z9\<close> and for the empty string, and \<open>get_piece_at\<close> unpacks that
  answer into two variables, which is a TypeError.
\<close>

theorem get_piece_at_malformed_raises:
  "ChessVar_get_piece_at ChessVar_init ''z9'' = Inl TypeError
   \<and> ChessVar_get_piece_at ChessVar_init [] = Inl TypeError"
  by (simp add: ChessVar_get_piece_at_def get_piece_at_def notation_to_index_def)

text \<open>
  C1. On a valid board \<open>make_move\<close> always returns, for every pair of strings: it never
  raises and its loop always ends. When the answer is \<open>False\<close> the state it leaves is
  the state it was given: board, turn and game state are untouched.
\<close>

theorem make_move_refusal_is_noop:
  assumes "valid_board (s_board s)"
  shows "make_move s current_square next_square = Return (False, s)
       \<or> (\<exists>s'. make_move s current_square next_square = Return (True, s'))"
  using make_move_returns [OF valid_well_sized [OF assms]] .

theorem make_move_refusal_is_noop_witness:
  "make_move ChessVar_init ''e2'' ''e5'' = Return (False, ChessVar_init)"
proof -
  have v: "valid_board (s_board ChessVar_init)" by code_simp
  have r: "case make_move ChessVar_init ''e2'' ''e5'' of
             Some (Inr (r, s')) \<Rightarrow> \<not> r | _ \<Rightarrow> False"
    by code_simp
  from make_move_refusal_is_noop [OF v, of "''e2''" "''e5''"] r
  show ?thesis by auto
qed

text \<open>
  C2. Once a sequence of calls on a new game has left a game state other than
  \<open>UNFINISHED\<close>, every later call answers \<open>False\<close> and leaves the very same state, so
  the game state, the board and the turn never change again.
\<close>

theorem finished_game_stays_finished:
  assumes "play ChessVar_init ms = Return (rs, s)"
    and "get_game_state s \<noteq> UNFINISHED"
  shows "play ChessVar_init (ms @ later) = Return (rs @ replicate (length later) False, s)
       \<and> make_move s current_square next_square = Return (False, s)"
proof -
  have f: "s_game_state s \<noteq> UNFINISHED" using assms(2) by (simp add: get_game_state_def)
  have "play s later = Return (replicate (length later) False, s)"
    using f by (rule play_finished)
  then have "play ChessVar_init (ms @ later) = Return (rs @ replicate (length later) False, s)"
    using play_append [OF assms(1), of later] by simp
  moreover have "make_move s current_square next_square = Return (False, s)"
    using f by (rule make_move_finished)
  ultimately show ?thesis by simp
qed

theorem finished_game_stays_finished_witness:
  "play ChessVar_init ((queen_raid @ [(''h5'', ''e8'')]) @ [(''a6'', ''a5''), (''e4'', ''e5'')])
     = Return ([True, True, True, True, True, False, False], after_capture)
   \<and> make_move after_capture ''e1'' ''e2'' = Return (False, after_capture)"
proof -
  have p: "play ChessVar_init (queen_raid @ [(''h5'', ''e8'')])
    = Return ([True, True, True, True, True], after_capture)"
    by code_simp
  have g: "get_game_state after_capture \<noteq> UNFINISHED" by code_simp
  from finished_game_stays_finished [OF p g, of "[(''a6'', ''a5''), (''e4'', ''e5'')]" "''e1''" "''e2''"]
  show ?thesis by simp
qed

text \<open>
  C5. A new game has white to move. A call of \<open>make_move\<close> changes the turn to the
  other side exactly when it answers \<open>True\<close> and leaves the game unfinished; a refused
  move and a move that ends the game leave the turn as it was.
\<close>

theorem turn_changes_on_continuing_move:
  assumes "valid_board (s_board s)"
  shows "get_turn ChessVar_init = WHITE
    \<and> (\<exists>r s'. make_move s current_square next_square = Return (r, s')
          \<and> get_turn s' = (if r \<and> get_game_state s' = UNFINISHED
                            then (if get_turn s = WHITE then BLACK else WHITE)
                            else get_turn s))"
proof -
  have ws: "well_sized (s_board s)" using assms by (rule valid_well_sized)
  have t0: "s_turn ChessVar_init = WHITE" by (simp add: ChessVar_init_def)
  have "\<exists>r s'. make_move s current_square next_square = Return (r, s')
          \<and> s_turn s' = (if r \<and> s_game_state s' = UNFINISHED
                            then (if s_turn s = WHITE then BLACK else WHITE)
                            else s_turn s)"
    using make_move_total [OF ws, of current_square next_square]
  proof
    assume "make_move s current_square next_square = Return (False, s)"
    then have "make_move s current_square next_square = Return (False, s)
      \<and> s_turn s = (if False \<and> s_game_state s = UNFINISHED
                            then (if s_turn s = WHITE then BLACK else WHITE)
                            else s_turn s)"
      by simp
    then show ?thesis by blast
  next
    assume "\<exists>a b. notation_to_index current_square = Some a \<and> notation_to_index next_square = Some b
          \<and> s_game_state s = UNFINISHED \<and> \<not> refused s (cell (s_board s) a) current_square next_square
          \<and> make_move s current_square next_square
            = Return (True, win_checks (s\<lparr>s_board := moved (s_board s) a b\<rparr>) (cell (s_board s) a) next_square)"
    then obtain a b where st: "s_game_state s = UNFINISHED"
      and mm: "make_move s current_square next_square
            = Return (True, win_checks (s\<lparr>s_board := moved (s_board s) a b\<rparr>) (cell (s_board s) a) next_square)"
      by blast
    let ?w = "win_checks (s\<lparr>s_board := moved (s_board s) a b\<rparr>) (cell (s_board s) a) next_square"
    have "s_game_state (s\<lparr>s_board := moved (s_board s) a b\<rparr>) = UNFINISHED" using st by simp
    from win_checks_turn [OF this, of "cell (s_board s) a" next_square] mm
    have "make_move s current_square next_square = Return (True, ?w)
      \<and> s_turn ?w = (if True \<and> s_game_state ?w = UNFINISHED
                            then (if s_turn s = WHITE then BLACK else WHITE)
                            else s_turn s)"
      by simp
    then show ?thesis by blast
  qed
  with t0 show ?thesis unfolding get_turn_def get_game_state_def by (rule conjI)
qed

theorem turn_changes_on_continuing_move_witness:
  "get_turn ChessVar_init = WHITE \<and> get_turn after_e4 = BLACK"
proof -
  have v: "valid_board (s_board ChessVar_init)" by code_simp
  have u: "get_game_state after_e4 = UNFINISHED" by code_simp
  from turn_changes_on_continuing_move [OF v, of "''e2''" "''e4''"] sample_e4 u
  show ?thesis by auto
qed

text \<open>
  C6. On an unfinished game, a move between two squares of the board whose origin holds
  the empty marker is refused. The test \<open>not piece\<close> does not catch it, the marker being
  a non-empty string; \<open>is_valid_move\<close> does, since the marker is no piece letter.
\<close>

theorem empty_origin_is_refused:
  assumes "valid_board (s_board s)" and "get_game_state s = UNFINISHED"
    and "is_within_bounds current_square" and "is_within_bounds next_square"
    and "get_piece_at (s_board s) current_square = Inr '' ''"
  shows "make_move s current_square next_square = Return (False, s)"
proof -
  have ws: "well_sized (s_board s)" using assms(1) by (rule valid_well_sized)
  have st: "s_game_state s = UNFINISHED" using assms(2) by (simp add: get_game_state_def)
  have "is_valid_move (Piece '' '') current_square next_square (s_board s) = Return False"
    using ws assms(3,4) by (rule empty_not_moved)
  then show ?thesis using st assms(3,4,5) by (simp add: make_move_def)
qed

theorem empty_origin_is_refused_witness:
  "make_move ChessVar_init ''e4'' ''e5'' = Return (False, ChessVar_init)"
proof -
  have "valid_board (s_board ChessVar_init)" "get_game_state ChessVar_init = UNFINISHED"
    "is_within_bounds ''e4''" "is_within_bounds ''e5''"
    "get_piece_at (s_board ChessVar_init) ''e4'' = Inr '' ''"
    by code_simp+
  then show ?thesis by (rule empty_origin_is_refused)
qed

text \<open>
  C3. When a king makes a move that passes every check of \<open>make_move\<close> and lands on
  d4, e4, d5 or e5, the call answers \<open>True\<close> and leaves the board of \<open>move_piece\<close>
  with the mover's side as winner, the turn unchanged. The king-capture check is never
  reached: the result does not depend on which kings remain, so it is the same when the
  move takes the opposing king.
\<close>

theorem king_to_center_wins:
  assumes "valid_board (s_board s)" and "get_game_state s = UNFINISHED"
    and "is_within_bounds current_square"
    and "next_square \<in> set [''d4'', ''e4'', ''d5'', ''e5'']"
    and "get_piece_at (s_board s) current_square = Inr piece"
    and "piece = ''K'' \<or> piece = ''k''"
    and "\<not> (get_turn s = WHITE \<and> islower piece)" and "\<not> (get_turn s = BLACK \<and> isupper piece)"
    and "is_valid_move (Piece piece) current_square next_square (s_board s) = Return True"
  shows "\<exists>board'. move_piece (s_board s) current_square next_square = Inr board'
    \<and> make_move s current_square next_square
        = Return (True, s\<lparr>s_board := board',
                           s_game_state := (if piece = ''K'' then WHITE_WON else BLACK_WON)\<rparr>)
    \<and> (piece = ''K'' \<longleftrightarrow> get_turn s = WHITE)"
proof -
  have ws: "well_sized (s_board s)" using assms(1) by (rule valid_well_sized)
  have st: "s_game_state s = UNFINISHED" using assms(2) by (simp add: get_game_state_def)
  have nb: "is_within_bounds next_square"
    using assms(4) by (auto simp: is_within_bounds_def)
  obtain a where ci: "notation_to_index current_square = Some a"
    using assms(3) by (auto simp: within_bounds_index)
  obtain b where ni: "notation_to_index next_square = Some b"
    using nb by (auto simp: within_bounds_index)
  have m: "move_piece (s_board s) current_square next_square = Inr (moved (s_board s) a b)"
    using ws ci ni by (rule move_piece_ok)
  have up: "isupper ''K''" "islower ''k''" "\<not> isupper ''k''" "\<not> islower ''K''" by code_simp+
  have t: "piece = ''K'' \<longleftrightarrow> s_turn s = WHITE"
    using assms(6,7,8) up by (cases "s_turn s") (auto simp: get_turn_def)
  have "make_move s current_square next_square
        = Return (True, s\<lparr>s_board := moved (s_board s) a b,
                           s_game_state := (if piece = ''K'' then WHITE_WON else BLACK_WON)\<rparr>)"
    using assms(6)
  proof
    assume "piece = ''K''"
    then show ?thesis
      using st assms(3,4,5,7,8,9) nb m by (simp add: make_move_def get_turn_def)
  next
    assume "piece = ''k''"
    then show ?thesis
      using st assms(3,4,5,7,8,9) nb m by (simp add: make_move_def get_turn_def)
  qed
  with m t show ?thesis by (simp add: get_turn_def)
qed

theorem king_to_center_wins_witness:
  "get_piece_at (s_board kings_face) ''e4'' = Inr ''k''
   \<and> make_move kings_face ''e3'' ''e4'' = Return (True, kings_face_won)
   \<and> get_game_state kings_face_won = WHITE_WON"
proof -
  have h: "valid_board (s_board kings_face)" "get_game_state kings_face = UNFINISHED"
    "is_within_bounds ''e3''" "''e4'' \<in> set [''d4'', ''e4'', ''d5'', ''e5'']"
    "get_piece_at (s_board kings_face) ''e3'' = Inr ''K''" "''K'' = ''K'' \<or> ''K'' = ''k''"
    "\<not> (get_turn kings_face = WHITE \<and> islower ''K'')"
    "\<not> (get_turn kings_face = BLACK \<and> isupper ''K'')"
    "is_valid_move (Piece ''K'') ''e3'' ''e4'' (s_board kings_face) = Return True"
    by code_simp+
  have mp: "move_piece (s_board kings_face) ''e3'' ''e4'' = Inr (s_board kings_face_won)"
    by code_simp
  have e: "kings_face\<lparr>s_board := s_board kings_face_won, s_game_state := WHITE_WON\<rparr> = kings_face_won"
    by (simp add: kings_face_def kings_face_won_def)
  have k: "get_piece_at (s_board kings_face) ''e4'' = Inr ''k''" by code_simp
  have g: "get_game_state kings_face_won = WHITE_WON" by code_simp
  from king_to_center_wins [OF h] mp e k g show ?thesis by auto
qed



text \<open>
  C7. For a rook, bishop or queen (of either colour) and two squares of the board that
  match the piece's geometric pattern, \<open>is_valid_move\<close> answers \<open>True\<close> exactly when
  the destination holds no piece of the mover's colour and every square strictly between
  origin and destination holds the empty marker. So any occupied square in between,
  whatever the colour of its piece, makes the move illegal, and neither the origin nor the
  destination is among the squares examined.
\<close>

theorem sliding_piece_needs_clear_path:
  assumes "valid_board board"
    and "notation_to_index current_square = Some a"
    and "notation_to_index next_square = Some b"
    and "line_pattern (piece_lower (Piece p)) a b"
  shows "is_valid_move (Piece p) current_square next_square board
      = Return (\<not> self_capture p (cell board b)
                \<and> list_all (\<lambda>sq. cell board sq = '' '') (between_squares a b))
    \<and> a \<notin> set (between_squares a b) \<and> b \<notin> set (between_squares a b)"
proof -
  have ws: "well_sized board" using assms(1) by (rule valid_well_sized)
  obtain fx fy where a: "a = (fx, fy)" by (cases a)
  obtain tx ty where b: "b = (tx, ty)" by (cases b)
  have "is_valid_move (Piece p) current_square next_square board
      = Return (\<not> self_capture (piece_type (Piece p)) (cell board (tx, ty))
                \<and> list_all (\<lambda>sq. cell board sq = '' '') (between_squares (fx, fy) (tx, ty)))"
    using ws assms(2) [unfolded a] assms(3) [unfolded b] assms(4) [unfolded a b]
    by (rule sliding_move)
  then show ?thesis using between_excludes_ends [of a b] by (simp add: a b Piece_def)
qed

theorem sliding_piece_needs_clear_path_witness:
  "cell Board_init (6, 0) = ''P''
   \<and> is_valid_move (Piece ''R'') ''a1'' ''a3'' Board_init = Return False
   \<and> is_valid_move (Piece ''r'') ''a1'' ''a3'' Board_init = Return False"
proof -
  have h: "valid_board Board_init" "notation_to_index ''a1'' = Some (7, 0)"
    "notation_to_index ''a3'' = Some (5, 0)"
    by code_simp+
  have w: "line_pattern (piece_lower (Piece ''R'')) (7, 0) (5, 0)"
    and k: "line_pattern (piece_lower (Piece ''r'')) (7, 0) (5, 0)"
    by code_simp+
  have c: "cell Board_init (6, 0) = ''P''" by code_simp
  have n: "\<not> list_all (\<lambda>sq. cell Board_init sq = '' '') (between_squares (7, 0) (5, 0))"
    by code_simp
  from sliding_piece_needs_clear_path [OF h w] sliding_piece_needs_clear_path [OF h k] c n
  show ?thesis by simp
qed

text \<open>
  C8. After a call of \<open>make_move\<close> that answers \<open>True\<close>, the destination holds what
  the origin held before, the origin holds the empty marker, origin and destination are
  two different squares, and every other square of the board holds what it held before.
\<close>

theorem legal_move_changes_two_squares:
  assumes "valid_board (s_board s)"
    and "make_move s current_square next_square = Return (True, s')"
  shows "get_piece_at (s_board s') next_square = get_piece_at (s_board s) current_square
    \<and> get_piece_at (s_board s') current_square = Inr '' ''
    \<and> current_square \<noteq> next_square
    \<and> (\<forall>sq. is_within_bounds sq \<and> sq \<noteq> current_square \<and> sq \<noteq> next_square
          \<longrightarrow> get_piece_at (s_board s') sq = get_piece_at (s_board s) sq)"
proof -
  have ws: "well_sized (s_board s)" using assms(1) by (rule valid_well_sized)
  from ws assms(2) obtain a b where ci: "notation_to_index current_square = Some a"
    and ni: "notation_to_index next_square = Some b"
    and nr: "\<not> refused s (cell (s_board s) a) current_square next_square"
    and s': "s' = win_checks (s\<lparr>s_board := moved (s_board s) a b\<rparr>) (cell (s_board s) a) next_square"
    by (rule legal_move_details)
  let ?b = "moved (s_board s) a b"
  have a: "on_board a" and b: "on_board b" using ci ni by (simp_all add: on_board_index)
  have bd: "s_board s' = ?b" unfolding s' by (simp add: win_checks_board)
  have ws': "well_sized ?b" using ws by (rule moved_well_sized)
  have g: "get_piece_at (s_board s) sq = Inr (cell (s_board s) c)"
      "get_piece_at ?b sq = Inr (cell ?b c)"
    if "notation_to_index sq = Some c" for sq c
    using get_piece_at_ok [OF ws, of sq "fst c" "snd c"]
      get_piece_at_ok [OF ws', of sq "fst c" "snd c"] that by simp_all
  have ne: "current_square \<noteq> next_square"
  proof
    assume e: "current_square = next_square"
    then have "a = b" using ci ni by simp
    have "is_valid_move (Piece (cell (s_board s) a)) current_square current_square (s_board s)
      = Return False"
      using no_null_move [OF ws, of current_square "fst a" "snd a"] ci by simp
    with nr e show False by (simp add: refused_def)
  qed
  then have ab: "a \<noteq> b" using notation_to_index_inj [OF ci] ni by auto
  have d: "get_piece_at ?b next_square = get_piece_at (s_board s) current_square"
    using g [OF ni] g [OF ci] ab by (simp add: cell_moved [OF ws a b b])
  have o: "get_piece_at ?b current_square = Inr '' ''"
    using g [OF ci] by (simp add: cell_moved [OF ws a b a])
  have r: "get_piece_at ?b sq = get_piece_at (s_board s) sq"
    if "is_within_bounds sq \<and> sq \<noteq> current_square \<and> sq \<noteq> next_square" for sq
  proof -
    from that obtain c where c: "notation_to_index sq = Some c"
      by (auto simp: within_bounds_index)
    have "c \<noteq> a" using notation_to_index_inj [OF c] ci that by auto
    moreover have "c \<noteq> b" using notation_to_index_inj [OF c] ni that by auto
    moreover have "on_board c" using c by (rule on_board_index)
    ultimately show ?thesis using g [OF c] by (simp add: cell_moved [OF ws a b])
  qed
  from d o ne r show ?thesis unfolding bd by blast
qed

theorem legal_move_changes_two_squares_witness:
  "make_move ChessVar_init ''e2'' ''e4'' = Return (True, after_e4)
   \<and> get_piece_at (s_board after_e4) ''e4'' = Inr ''P''
   \<and> get_piece_at (s_board after_e4) ''e2'' = Inr '' ''
   \<and> get_piece_at (s_board after_e4) ''e7'' = Inr ''p''"
proof -
  have v: "valid_board (s_board ChessVar_init)" by code_simp
  have m: "make_move ChessVar_init ''e2'' ''e4'' = Return (True, after_e4)" by code_simp
  have o: "get_piece_at (s_board ChessVar_init) ''e2'' = Inr ''P''"
    and f: "get_piece_at (s_board ChessVar_init) ''e7'' = Inr ''p''"
    and w: "is_within_bounds ''e7'' \<and> ''e7'' \<noteq> ''e2'' \<and> ''e7'' \<noteq> ''e4''"
    by code_simp+
  from legal_move_changes_two_squares [OF v m] o f w m show ?thesis by simp
qed

end
